theory Spec2Isabelle
  imports Main "HOL-Library.Char_ord" "HOL-Library.List_Lexorder" "HOL-Library.AList"
begin

unbundle bit_operations_syntax

section \<open>Data model\<close>

text \<open>
  Python \<open>bytes\<close> are sequences of integers in \<open>range(256)\<close>; they are modelled as lists
  of \<^typ>\<open>char\<close> (an 8-bit value): \<open>of_char\<close> reads a byte as an integer and \<open>char_of\<close>
  stores the low eight bits of one.  A Python \<open>str\<close> is modelled by its UTF-8 encoding,
  again a \<^typ>\<open>string\<close>, so that \<open>encode('utf-8')\<close> is the identity and the ordering of
  strings (by code point) is the bytewise lexicographic ordering.  Python integers are
  \<^typ>\<open>int\<close>; lengths, offsets and loop counters are \<^typ>\<open>nat\<close>.
\<close>

type_synonym bytes = "char list"

text \<open>The exceptions the modelled code can raise.\<close>

datatype error =
    ValueError          \<comment> \<open>\<open>ValueError\<close>: negative varbyte input, bad magic, bad integer literal\<close>
  | IndexError          \<comment> \<open>\<open>IndexError("Unexpected end of byte stream")\<close>\<close>
  | StructError         \<comment> \<open>\<open>struct.error\<close>: short buffer on unpack, value out of range on pack\<close>
  | UnicodeDecodeError  \<comment> \<open>\<open>bytes.decode('utf-8')\<close> on an ill-formed sequence\<close>

section \<open>compression.py\<close>

text \<open>
  \<open>encode_varbyte\<close>: the \<open>while number >= 128\<close> loop, with the output buffer \<open>out\<close> as an
  accumulator.
\<close>

function encode_varbyte_loop :: "bytes \<Rightarrow> int \<Rightarrow> bytes" where
  "encode_varbyte_loop out number =
     (if number \<ge> 128
      then encode_varbyte_loop (out @ [char_of ((number AND 0x7F) OR 0x80)]) (drop_bit 7 number)
      else out @ [char_of number])"
  by pat_completeness auto
termination
  by (relation "measure (\<lambda>(out, number). nat number)") (auto simp: drop_bit_eq_div)

declare encode_varbyte_loop.simps [simp del]

definition encode_varbyte :: "int \<Rightarrow> error + bytes" where
  "encode_varbyte number =
     (if number < 0 then Inl ValueError
      else if number = 0 then Inr [CHR 0x00]
      else Inr (encode_varbyte_loop [] number))"

text \<open>
  \<open>decode_varbyte_stream\<close>: the \<open>while True\<close> loop over \<open>offset\<close>, \<open>number\<close> and \<open>shift\<close>.
  Every caller passes an offset that is a byte index, so \<open>offset\<close> is a \<^typ>\<open>nat\<close>.
\<close>

function decode_varbyte_loop :: "bytes \<Rightarrow> nat \<Rightarrow> int \<Rightarrow> nat \<Rightarrow> error + (int \<times> nat)" where
  "decode_varbyte_loop data offset number shift =
     (if offset \<ge> length data then Inl IndexError
      else
        let byte = (of_char (data ! offset) :: int);
            offset' = offset + 1;
            number' = number OR push_bit shift (byte AND 0x7F)
        in if byte AND 0x80 = 0 then Inr (number', offset')
           else decode_varbyte_loop data offset' number' (shift + 7))"
  by pat_completeness auto
termination
  by (relation "measure (\<lambda>(data, offset, number, shift). length data - offset)") auto

declare decode_varbyte_loop.simps [simp del]

definition decode_varbyte_stream :: "bytes \<Rightarrow> nat \<Rightarrow> error + (int \<times> nat)" where
  "decode_varbyte_stream data offset = decode_varbyte_loop data offset 0 0"

text \<open>\<open>encode_delta\<close>: the first number, then the successive differences.\<close>

fun encode_delta_loop :: "int \<Rightarrow> int list \<Rightarrow> int list" where
  "encode_delta_loop prev [] = []"
| "encode_delta_loop prev (x # xs) = (x - prev) # encode_delta_loop x xs"

fun encode_delta :: "int list \<Rightarrow> int list" where
  "encode_delta [] = []"
| "encode_delta (x # xs) = x # encode_delta_loop x xs"

text \<open>\<open>decode_delta\<close>: the running sum.\<close>

fun decode_delta_loop :: "int \<Rightarrow> int list \<Rightarrow> int list" where
  "decode_delta_loop current [] = []"
| "decode_delta_loop current (d # ds) = (current + d) # decode_delta_loop (current + d) ds"

fun decode_delta :: "int list \<Rightarrow> int list" where
  "decode_delta [] = []"
| "decode_delta (d # ds) = d # decode_delta_loop d ds"

text \<open>
  The number of bits of a non-negative integer (Python's \<open>int.bit_length\<close>), the
  \<open>bits(n)\<close> of the codec contract.
\<close>

fun bit_length :: "nat \<Rightarrow> nat" where
  "bit_length n = (if n = 0 then 0 else Suc (bit_length (n div 2)))"

declare bit_length.simps [simp del]

text \<open>
  The bytes \<open>encode_varbyte\<close> emits for a non-negative number, without the accumulator
  (used to state the loop's result).
\<close>

function varbyte_bytes :: "int \<Rightarrow> bytes" where
  "varbyte_bytes n =
     (if n \<ge> 128 then char_of ((n AND 0x7F) OR 0x80) # varbyte_bytes (drop_bit 7 n)
      else [char_of n])"
  by pat_completeness auto
termination
  by (relation "measure nat") (auto simp: drop_bit_eq_div)

declare varbyte_bytes.simps [simp del]


section \<open>search.py: CompressedIndexReader\<close>

text \<open>
  A \<open>DocInfo\<close> dictionary \<open>{"url": ..., "title": ...}\<close>, and the reader object: the
  document table, the term dictionary (a Python \<open>dict\<close>, kept as an association list
  in insertion order, updated with \<open>AList.update\<close> and read with \<open>map_of\<close>) and the
  contents of the open \<open>index.postings\<close> file.
\<close>

record doc_info =
  url :: string
  title :: string

record reader =
  doc_infos :: "doc_info list"
  term_dict :: "(string \<times> (nat \<times> nat)) list"
  post_file :: bytes

text \<open>
  \<open>f.read(n)\<close> on a binary file with contents \<open>content\<close> and cursor \<open>pos\<close>: the next
  \<open>n\<close> bytes, fewer at the end of the file, and the cursor moved past them.
\<close>

definition file_read :: "bytes \<Rightarrow> nat \<Rightarrow> nat \<Rightarrow> bytes \<times> nat" where
  "file_read content pos n =
     (let chunk = take n (drop pos content) in (chunk, pos + length chunk))"

definition buffer_size :: nat where
  "buffer_size = 1024 * 1024"

text \<open>
  The refill step of \<open>get_postings\<close>, with the safety margin (10 before a document
  entry, 5 before a position) as a parameter:
  \<^verbatim>\<open>
  if ptr >= len(buffer) - margin:
      new_chunk = self.post_file.read(buffer_size)
      if new_chunk:
          buffer = buffer[ptr:] + new_chunk
          ptr = 0
  \<close>
  The state is the buffer, the pointer into it and the file cursor.
\<close>

definition refill :: "int \<Rightarrow> bytes \<Rightarrow> bytes \<times> nat \<times> nat \<Rightarrow> bytes \<times> nat \<times> nat" where
  "refill margin file st =
     (case st of (buffer, ptr, fpos) \<Rightarrow>
        if int ptr \<ge> int (length buffer) - margin
        then (case file_read file fpos buffer_size of (new_chunk, fpos') \<Rightarrow>
                if new_chunk \<noteq> [] then (drop ptr buffer @ new_chunk, 0, fpos')
                else (buffer, ptr, fpos'))
        else (buffer, ptr, fpos))"

text \<open>The inner loop \<open>for _ in range(freq)\<close> of \<open>get_postings\<close>.\<close>

fun read_positions ::
  "bytes \<Rightarrow> nat \<Rightarrow> bytes \<times> nat \<times> nat \<Rightarrow> int \<Rightarrow> int list
     \<Rightarrow> error + ((bytes \<times> nat \<times> nat) \<times> int list)" where
  "read_positions file 0 st curr_pos positions = Inr (st, positions)"
| "read_positions file (Suc k) st curr_pos positions =
     (case refill 5 file st of (buffer, ptr, fpos) \<Rightarrow>
        (case decode_varbyte_stream buffer ptr of
           Inl e \<Rightarrow> Inl e
         | Inr (pos_delta, ptr') \<Rightarrow>
             read_positions file k (buffer, ptr', fpos) (curr_pos + pos_delta)
               (positions @ [curr_pos + pos_delta])))"

text \<open>The outer loop \<open>for _ in range(doc_count)\<close> of \<open>get_postings\<close>.\<close>

fun read_docs ::
  "bytes \<Rightarrow> nat \<Rightarrow> bytes \<times> nat \<times> nat \<Rightarrow> int \<Rightarrow> (int \<times> int list) list
     \<Rightarrow> error + (int \<times> int list) list" where
  "read_docs file 0 st curr_doc_id result = Inr result"
| "read_docs file (Suc k) st curr_doc_id result =
     (case refill 10 file st of (buffer, ptr, fpos) \<Rightarrow>
        (case decode_varbyte_stream buffer ptr of
           Inl e \<Rightarrow> Inl e
         | Inr (doc_delta, ptr1) \<Rightarrow>
             (case decode_varbyte_stream buffer ptr1 of
                Inl e \<Rightarrow> Inl e
              | Inr (freq, ptr2) \<Rightarrow>
                  (case read_positions file (nat freq) (buffer, ptr2, fpos) 0 [] of
                     Inl e \<Rightarrow> Inl e
                   | Inr (st', positions) \<Rightarrow>
                       read_docs file k st' (curr_doc_id + doc_delta)
                         (AList.update (curr_doc_id + doc_delta) positions result)))))"

text \<open>
  \<open>get_postings\<close>.  The result dictionary \<open>DocId \<rightarrow> positions\<close> is an association list
  in insertion order.  Every call starts with \<open>seek(offset)\<close>, so the cursor left behind
  by the previous call is never read and is not part of the reader's state.
\<close>

definition get_postings :: "reader \<Rightarrow> string \<Rightarrow> error + (int \<times> int list) list" where
  "get_postings r term =
     (case map_of (term_dict r) term of
        None \<Rightarrow> Inr []
      | Some (offset, expected_doc_count) \<Rightarrow>
          (case file_read (post_file r) offset buffer_size of (buffer, fpos) \<Rightarrow>
             if buffer = [] then Inr []
             else
               (case decode_varbyte_stream buffer 0 of
                  Inl e \<Rightarrow> Inl e
                | Inr (doc_count, ptr) \<Rightarrow>
                    read_docs (post_file r) (nat doc_count) (buffer, ptr, fpos) 0 [])))"

definition get_doc_info :: "reader \<Rightarrow> int \<Rightarrow> doc_info" where
  "get_doc_info r doc_id =
     (if 0 \<le> doc_id \<and> doc_id < int (length (doc_infos r))
      then doc_infos r ! nat doc_id
      else \<lparr>url = '''', title = ''''\<rparr>)"

definition get_doc_url :: "reader \<Rightarrow> int \<Rightarrow> string" where
  "get_doc_url r doc_id = url (get_doc_info r doc_id)"

subsection \<open>Loading \<open>index.docs\<close> and \<open>index.dict\<close>\<close>

text \<open>
  \<open>struct.unpack\<close> of one unsigned little-endian integer of \<open>n\<close> bytes (\<open><B\<close>, \<open><H\<close>, \<open><I\<close>,
  \<open><Q\<close> for 1, 2, 4, 8): \<open>struct.error\<close> unless the buffer has exactly \<open>n\<close> bytes.
\<close>

definition le_value :: "bytes \<Rightarrow> nat" where
  "le_value bs = foldr (\<lambda>b acc. of_char b + 256 * acc) bs 0"

definition unpack_uint :: "nat \<Rightarrow> bytes \<Rightarrow> error + nat" where
  "unpack_uint n bs = (if length bs = n then Inr (le_value bs) else Inl StructError)"

text \<open>
  \<open>bytes.decode('utf-8')\<close>.  A string is modelled by its UTF-8 encoding, so decoding
  returns the bytes themselves when they are well-formed UTF-8 (shortest form, no
  surrogates, at most \<open>U+10FFFF\<close>) and raises \<open>UnicodeDecodeError\<close> otherwise.
\<close>

definition in_range :: "char \<Rightarrow> nat \<Rightarrow> nat \<Rightarrow> bool" where
  "in_range c lo hi = (lo \<le> of_char c \<and> (of_char c :: nat) \<le> hi)"

fun utf8_valid :: "bytes \<Rightarrow> bool" where
  "utf8_valid [] = True"
| "utf8_valid (b # bs) =
     (if in_range b 0x00 0x7F then utf8_valid bs
      else if in_range b 0xC2 0xDF then
        (case bs of c1 # r \<Rightarrow> in_range c1 0x80 0xBF \<and> utf8_valid r | _ \<Rightarrow> False)
      else if in_range b 0xE0 0xEF then
        (case bs of
           c1 # c2 # r \<Rightarrow>
             in_range c1 (if b = CHR 0xE0 then 0xA0 else 0x80) (if b = CHR 0xED then 0x9F else 0xBF)
             \<and> in_range c2 0x80 0xBF \<and> utf8_valid r
         | _ \<Rightarrow> False)
      else if in_range b 0xF0 0xF4 then
        (case bs of
           c1 # c2 # c3 # r \<Rightarrow>
             in_range c1 (if b = CHR 0xF0 then 0x90 else 0x80) (if b = CHR 0xF4 then 0x8F else 0xBF)
             \<and> in_range c2 0x80 0xBF \<and> in_range c3 0x80 0xBF \<and> utf8_valid r
         | _ \<Rightarrow> False)
      else False)"

definition utf8_decode :: "bytes \<Rightarrow> error + string" where
  "utf8_decode bs = (if utf8_valid bs then Inr bs else Inl UnicodeDecodeError)"

text \<open>The loop \<open>for _ in range(count): offsets.append(struct.unpack('<Q', f.read(8))[0])\<close>.\<close>

fun read_offsets :: "bytes \<Rightarrow> nat \<Rightarrow> nat \<Rightarrow> error + nat list" where
  "read_offsets f pos 0 = Inr []"
| "read_offsets f pos (Suc k) =
     (case file_read f pos 8 of (b, pos') \<Rightarrow>
        (case unpack_uint 8 b of
           Inl e \<Rightarrow> Inl e
         | Inr off \<Rightarrow>
             (case read_offsets f pos' k of Inl e \<Rightarrow> Inl e | Inr offs \<Rightarrow> Inr (off # offs))))"

text \<open>
  The loop \<open>for off in offsets\<close> of \<open>_load_docs\<close>: seek, read the url and, for versions
  from 3 on, the title.
\<close>

fun read_doc_records :: "bytes \<Rightarrow> nat \<Rightarrow> nat list \<Rightarrow> error + doc_info list" where
  "read_doc_records f ver [] = Inr []"
| "read_doc_records f ver (off # offsets) =
     (case file_read f off 2 of (b1, p1) \<Rightarrow>
      case unpack_uint 2 b1 of Inl e \<Rightarrow> Inl e | Inr url_len \<Rightarrow>
      case file_read f p1 url_len of (b2, p2) \<Rightarrow>
      case utf8_decode b2 of Inl e \<Rightarrow> Inl e | Inr url_text \<Rightarrow>
      case (if ver \<ge> 3 then
              (case file_read f p2 2 of (b3, p3) \<Rightarrow>
               case unpack_uint 2 b3 of Inl e \<Rightarrow> Inl e | Inr title_len \<Rightarrow>
               case file_read f p3 title_len of (b4, p4) \<Rightarrow> utf8_decode b4)
            else Inr []) of
        Inl e \<Rightarrow> Inl e
      | Inr title_text \<Rightarrow>
          (case read_doc_records f ver offsets of
             Inl e \<Rightarrow> Inl e
           | Inr infos \<Rightarrow> Inr (\<lparr>url = url_text, title = title_text\<rparr> # infos)))"

text \<open>\<open>_load_docs\<close> on the contents of \<open>index.docs\<close>: the list \<open>self.doc_infos\<close>.\<close>

definition load_docs :: "bytes \<Rightarrow> error + doc_info list" where
  "load_docs f =
     (case file_read f 0 4 of (magic, p1) \<Rightarrow>
      if magic \<noteq> ''DOCS'' then Inl ValueError
      else
        (case file_read f p1 2 of (b1, p2) \<Rightarrow>
         case unpack_uint 2 b1 of Inl e \<Rightarrow> Inl e | Inr ver \<Rightarrow>
         case file_read f p2 4 of (b2, p3) \<Rightarrow>
         case unpack_uint 4 b2 of Inl e \<Rightarrow> Inl e | Inr count \<Rightarrow>
         case read_offsets f p3 count of Inl e \<Rightarrow> Inl e | Inr offsets \<Rightarrow>
         read_doc_records f ver offsets))"

text \<open>The loop \<open>for _ in range(count)\<close> of \<open>_load_dict\<close>, storing into \<open>self.term_dict\<close>.\<close>

fun read_dict_entries ::
  "bytes \<Rightarrow> nat \<Rightarrow> nat \<Rightarrow> (string \<times> (nat \<times> nat)) list \<Rightarrow> error + (string \<times> (nat \<times> nat)) list" where
  "read_dict_entries f pos 0 tdict = Inr tdict"
| "read_dict_entries f pos (Suc k) tdict =
     (case file_read f pos 1 of (b1, p1) \<Rightarrow>
      case unpack_uint 1 b1 of Inl e \<Rightarrow> Inl e | Inr len \<Rightarrow>
      case file_read f p1 len of (b2, p2) \<Rightarrow>
      case utf8_decode b2 of Inl e \<Rightarrow> Inl e | Inr term \<Rightarrow>
      case file_read f p2 8 of (b3, p3) \<Rightarrow>
      case unpack_uint 8 b3 of Inl e \<Rightarrow> Inl e | Inr offset \<Rightarrow>
      case file_read f p3 4 of (b4, p4) \<Rightarrow>
      case unpack_uint 4 b4 of Inl e \<Rightarrow> Inl e | Inr doc_count \<Rightarrow>
      read_dict_entries f p4 k (AList.update term (offset, doc_count) tdict))"

text \<open>\<open>_load_dict\<close> on the contents of \<open>index.dict\<close>; the version is read and not used.\<close>

definition load_dict :: "bytes \<Rightarrow> error + (string \<times> (nat \<times> nat)) list" where
  "load_dict f =
     (case file_read f 0 4 of (magic, p1) \<Rightarrow>
      if magic \<noteq> ''DICT'' then Inl ValueError
      else
        (case file_read f p1 2 of (b1, p2) \<Rightarrow>
         case unpack_uint 2 b1 of Inl e \<Rightarrow> Inl e | Inr ver \<Rightarrow>
         case file_read f p2 4 of (b2, p3) \<Rightarrow>
         case unpack_uint 4 b2 of Inl e \<Rightarrow> Inl e | Inr count \<Rightarrow>
         read_dict_entries f p3 count []))"

text \<open>
  \<open>CompressedIndexReader.__init__\<close> on an index directory holding the three files: the
  reader, or the exception of the first loader that fails.  The postings file is only
  opened.
\<close>

definition CompressedIndexReader :: "bytes \<Rightarrow> bytes \<Rightarrow> bytes \<Rightarrow> error + reader" where
  "CompressedIndexReader index_docs index_dict index_postings =
     (case load_docs index_docs of
        Inl e \<Rightarrow> Inl e
      | Inr infos \<Rightarrow>
          (case load_dict index_dict of
             Inl e \<Rightarrow> Inl e
           | Inr terms \<Rightarrow> Inr \<lparr>doc_infos = infos, term_dict = terms, post_file = index_postings\<rparr>))"


section \<open>search.py: SearchEngine\<close>

text \<open>
  The engine holds the reader, the tokenizer and the universe \<open>all_docs\<close>.  The tokenizer
  field is the function \<open>text \<mapsto> tokenizer.tokenize(text)\<close> of a tokenizer client whose
  child process answers each request line independently of earlier ones.
\<close>

record search_engine =
  reader :: reader
  tokenizer :: "string \<Rightarrow> string list"
  all_docs :: "int set"

definition SearchEngine :: "reader \<Rightarrow> (string \<Rightarrow> string list) \<Rightarrow> search_engine" where
  "SearchEngine r tok =
     \<lparr>reader = r, tokenizer = tok, all_docs = {0 ..< int (length (doc_infos r))}\<rparr>"

subsection \<open>The query lexer \<open>_tokenize\<close>\<close>

text \<open>
  Character classes of the regular expression, on ASCII: \<open>\s\<close> (Python counts the
  separators \<open>0x1c\<close> to \<open>0x1f\<close> as white space too) and \<open>\d\<close>.  White space and digits
  outside ASCII are not modelled: their UTF-8 bytes count as ordinary word characters.
\<close>

definition is_space :: "char \<Rightarrow> bool" where
  "is_space c = (c \<in> set [CHR 0x09, CHR 0x0A, CHR 0x0B, CHR 0x0C, CHR 0x0D,
                           CHR 0x1C, CHR 0x1D, CHR 0x1E, CHR 0x1F, CHR 0x20])"

definition is_digit :: "char \<Rightarrow> bool" where
  "is_digit c = (c \<in> set ''0123456789'')"

text \<open>The class \<open>[^\s"&|!()/]\<close> of the word alternative.\<close>

definition is_word_char :: "char \<Rightarrow> bool" where
  "is_word_char c = (\<not> is_space c \<and> c \<notin> set [CHR 0x22, CHR ''&'', CHR ''|'', CHR ''!'',
                                               CHR ''('', CHR '')'', CHR ''/''])"

text \<open>
  \<open>query.replace('\<guillemotleft>', '"').replace('\<guillemotright>', '"')\<close> on the UTF-8 bytes: the
  guillemets are the byte pairs \<open>C2 AB\<close> and \<open>C2 BB\<close>.
\<close>

fun replace_guillemets :: "string \<Rightarrow> string" where
  "replace_guillemets (c # d # cs) =
     (if c = CHR 0xC2 \<and> (d = CHR 0xAB \<or> d = CHR 0xBB) then CHR 0x22 # replace_guillemets cs
      else c # replace_guillemets (d # cs))"
| "replace_guillemets cs = cs"

text \<open>
  \<open>pattern.finditer(q)\<close> for the pattern
  \<^verbatim>\<open>"([^"]+)"|(\d+)|(&&|\|\||!|\(|\)|/)|([^\s"&|!()/]+)\<close>:
  at each position the alternatives are tried in order (phrase, number, operator, word),
  each repetition is greedy, and a position where none matches is skipped.  The token
  appended for a match is \<open>'PHRASE:' + phrase\<close>, \<open>'NUM:' + num\<close>, the operator or the word.
\<close>

function scan :: "string \<Rightarrow> string list" where
  "scan [] = []"
| "scan (c # cs) =
     (if c = CHR 0x22 then
        (let phrase = takeWhile (\<lambda>x. x \<noteq> CHR 0x22) cs;
             rest = dropWhile (\<lambda>x. x \<noteq> CHR 0x22) cs
         in if phrase \<noteq> [] \<and> rest \<noteq> [] then (''PHRASE:'' @ phrase) # scan (tl rest)
            else scan cs)
      else if is_digit c then
        (''NUM:'' @ takeWhile is_digit (c # cs)) # scan (dropWhile is_digit cs)
      else if c = CHR ''&'' then
        (case cs of d # ds \<Rightarrow> if d = CHR ''&'' then ''&&'' # scan ds else scan cs
                  | [] \<Rightarrow> scan cs)
      else if c = CHR ''|'' then
        (case cs of d # ds \<Rightarrow> if d = CHR ''|'' then ''||'' # scan ds else scan cs
                  | [] \<Rightarrow> scan cs)
      else if c \<in> set [CHR ''!'', CHR ''('', CHR '')'', CHR ''/''] then [c] # scan cs
      else if is_word_char c then
        (c # takeWhile is_word_char cs) # scan (dropWhile is_word_char cs)
      else scan cs)"
  by pat_completeness auto
termination
proof (relation "measure length")
  fix c :: char and cs phrase rest :: string
  assume "rest = dropWhile (\<lambda>x. x \<noteq> CHR 0x22) cs"
  then have "length (tl rest) \<le> length cs"
    using length_dropWhile_le [of "\<lambda>x. x \<noteq> CHR 0x22" cs] by simp
  then show "(tl rest, c # cs) \<in> measure length" by simp
next
  fix c :: char and cs :: string
  show "(dropWhile is_digit cs, c # cs) \<in> measure length"
    using length_dropWhile_le [of is_digit cs] by simp
next
  fix c :: char and cs :: string
  show "(dropWhile is_word_char cs, c # cs) \<in> measure length"
    using length_dropWhile_le [of is_word_char cs] by simp
qed auto

declare scan.simps [simp del]

definition tokenize_query :: "string \<Rightarrow> string list" where
  "tokenize_query query = scan (replace_guillemets query)"

subsection \<open>The parser in \<open>_evaluate_recursive\<close>\<close>

text \<open>
  The tuples \<open>('TERM', w)\<close>, \<open>('PHRASE', text)\<close>, \<open>('PROXIMITY', content, dist)\<close> and
  \<open>('OP', op)\<close> (the constructor for \<open>'TERM'\<close> is \<open>TERM_tok\<close>).
\<close>

datatype token = TERM_tok string | PHRASE string | PROXIMITY string int | OP string

definition startswith :: "string \<Rightarrow> string \<Rightarrow> bool" where
  "startswith s p = (take (length p) s = p)"

text \<open>\<open>str.strip()\<close>: white space removed at both ends.\<close>

definition strip :: "string \<Rightarrow> string" where
  "strip s = rev (dropWhile is_space (rev (dropWhile is_space s)))"

text \<open>
  \<open>int(s)\<close> for a string: optional surrounding white space, an optional sign, then
  decimal digits, where single underscores may separate digits; anything else raises
  \<open>ValueError\<close>.  (Digits outside ASCII and the interpreter's limit on the number of
  digits are not modelled.)  \<open>int_digits\<close> reads the digits; its flag says that the
  previous character was a digit.
\<close>

fun int_digits :: "string \<Rightarrow> bool \<Rightarrow> int \<Rightarrow> int option" where
  "int_digits [] prev acc = (if prev then Some acc else None)"
| "int_digits (c # cs) prev acc =
     (if is_digit c then int_digits cs True (acc * 10 + (of_char c - 48))
      else if c = CHR ''_'' \<and> prev then int_digits cs False acc
      else None)"

definition py_int :: "string \<Rightarrow> error + int" where
  "py_int s =
     (case strip s of
        [] \<Rightarrow> Inl ValueError
      | c # cs \<Rightarrow>
          (if c = CHR ''-'' then
             (case int_digits cs False 0 of None \<Rightarrow> Inl ValueError | Some v \<Rightarrow> Inr (- v))
           else if c = CHR ''+'' then
             (case int_digits cs False 0 of None \<Rightarrow> Inl ValueError | Some v \<Rightarrow> Inr v)
           else
             (case int_digits (c # cs) False 0 of None \<Rightarrow> Inl ValueError | Some v \<Rightarrow> Inr v)))"

text \<open>
  The first loop of \<open>_evaluate_recursive\<close>: operands become \<open>TERM\<close> or \<open>PHRASE\<close> tokens, an
  operand followed by \<open>/\<close> and a number becomes one \<open>PROXIMITY\<close> token, operators become
  \<open>OP\<close> tokens, and a stray \<open>/\<close> or number is dropped.  The index \<open>i\<close> of the source is
  the position of the head of the list; \<open>tokens[i+2].split(':')[1]\<close> is the text between
  the first and the second colon.
\<close>

fun process_tokens :: "string list \<Rightarrow> error + token list" where
  "process_tokens [] = Inr []"
| "process_tokens (t # ts) =
     (if startswith t ''PHRASE:'' \<or>
         \<not> (t \<in> set [''&&'', ''||'', ''!'', ''('', '')'', ''/''] \<or> startswith t ''NUM:'')
      then
        (let plain =
               (case process_tokens ts of
                  Inl e \<Rightarrow> Inl e
                | Inr rest \<Rightarrow>
                    Inr ((if startswith t ''PHRASE:'' then PHRASE (drop 7 t) else TERM_tok t) # rest))
         in case ts of
              s1 # s2 # ts' \<Rightarrow>
                if s1 = ''/'' \<and> startswith s2 ''NUM:'' then
                  (case py_int (takeWhile (\<lambda>x. x \<noteq> CHR '':'') (drop 4 s2)) of
                     Inl e \<Rightarrow> Inl e
                   | Inr dist \<Rightarrow>
                       (case process_tokens ts' of
                          Inl e \<Rightarrow> Inl e
                        | Inr rest \<Rightarrow>
                            Inr (PROXIMITY (if \<not> startswith t ''PHRASE:'' then t else drop 7 t) dist
                                   # rest)))
                else plain
            | _ \<Rightarrow> plain)
      else if t \<in> set [''&&'', ''||'', ''!'', ''('', '')''] then
        (case process_tokens ts of Inl e \<Rightarrow> Inl e | Inr rest \<Rightarrow> Inr (OP t # rest))
      else process_tokens ts)"

text \<open>
  The second loop: an implicit \<open>&&\<close> between two adjacent tokens unless the first is an
  operator other than \<open>)\<close> or the second is an operator other than \<open>(\<close> and \<open>!\<close>.
\<close>

fun is_op1 :: "token \<Rightarrow> bool" where
  "is_op1 (OP v) = (v \<noteq> '')'')"
| "is_op1 _ = False"

fun is_op2 :: "token \<Rightarrow> bool" where
  "is_op2 (OP v) = (v \<notin> set [''('', ''!''])"
| "is_op2 _ = False"

fun insert_and :: "token list \<Rightarrow> token list" where
  "insert_and [] = []"
| "insert_and [token] = [token]"
| "insert_and (token # nxt # rest) =
     (if \<not> is_op1 token \<and> \<not> is_op2 nxt
      then token # OP ''&&'' # insert_and (nxt # rest)
      else token # insert_and (nxt # rest))"

text \<open>
  The shunting-yard loop.  The operator stack is a list whose head is the top
  (\<open>stack[-1]\<close>); \<open>PRECEDENCE\<close> is \<open>PRECEDENCE.get(op, 0)\<close>.
\<close>

definition PRECEDENCE :: "string \<Rightarrow> nat" where
  "PRECEDENCE v =
     (if v = ''('' then 0 else if v = ''||'' then 1 else if v = ''&&'' then 2
      else if v = ''!'' then 3 else 0)"

text \<open>\<open>while stack and stack[-1] != '(': output.append(('OP', stack.pop()))\<close>\<close>

fun pop_to_paren :: "token list \<Rightarrow> string list \<Rightarrow> token list \<times> string list" where
  "pop_to_paren output [] = (output, [])"
| "pop_to_paren output (op # stack) =
     (if op \<noteq> ''('' then pop_to_paren (output @ [OP op]) stack else (output, op # stack))"

text \<open>
  \<open>while stack and stack[-1] != '(' and PRECEDENCE.get(stack[-1], 0) >= PRECEDENCE.get(val, 0):
  output.append(('OP', stack.pop()))\<close>
\<close>

fun pop_higher :: "string \<Rightarrow> token list \<Rightarrow> string list \<Rightarrow> token list \<times> string list" where
  "pop_higher val output [] = (output, [])"
| "pop_higher val output (op # stack) =
     (if op \<noteq> ''('' \<and> PRECEDENCE op \<ge> PRECEDENCE val
      then pop_higher val (output @ [OP op]) stack
      else (output, op # stack))"

fun shunting_yard :: "token list \<Rightarrow> string list \<Rightarrow> token list \<Rightarrow> token list" where
  "shunting_yard output stack [] = output @ map OP stack"
| "shunting_yard output stack (OP val # rest) =
     (if val = ''('' then shunting_yard output (val # stack) rest
      else if val = '')'' then
        (case pop_to_paren output stack of
           (output', stack') \<Rightarrow> shunting_yard output' (if stack' \<noteq> [] then tl stack' else stack') rest)
      else
        (case pop_higher val output stack of
           (output', stack') \<Rightarrow> shunting_yard output' (val # stack') rest))"
| "shunting_yard output stack (token # rest) = shunting_yard (output @ [token]) stack rest"

text \<open>The RPN that \<open>_evaluate_recursive\<close> hands to \<open>_solve_rpn\<close>.\<close>

definition to_rpn :: "string list \<Rightarrow> error + token list" where
  "to_rpn tokens =
     (case process_tokens tokens of
        Inl e \<Rightarrow> Inl e
      | Inr processed_tokens \<Rightarrow> Inr (shunting_yard [] [] (insert_and processed_tokens)))"

subsection \<open>Phrase and proximity search\<close>

text \<open>
  \<open>_find_path\<close>: the first argument is \<open>positions_list[idx:]\<close>, so the test
  \<open>idx == len(positions_list)\<close> is the test for the empty list; \<open>find_path_from\<close> is the
  loop \<open>for pos in candidates\<close>, with \<open>continue\<close> as the call on the remaining candidates.
\<close>

fun find_path :: "int list list \<Rightarrow> nat \<Rightarrow> int \<Rightarrow> int \<Rightarrow> int \<Rightarrow> bool \<Rightarrow> bool"
  and find_path_from ::
    "int list \<Rightarrow> int list list \<Rightarrow> nat \<Rightarrow> int \<Rightarrow> int \<Rightarrow> int \<Rightarrow> bool \<Rightarrow> bool" where
  "find_path [] idx prev_pos first_pos max_dist is_exact = True"
| "find_path (candidates # rest) idx prev_pos first_pos max_dist is_exact =
     find_path_from candidates rest idx prev_pos first_pos max_dist is_exact"
| "find_path_from [] rest idx prev_pos first_pos max_dist is_exact = False"
| "find_path_from (pos # candidates) rest idx prev_pos first_pos max_dist is_exact =
     (if idx = 0 then
        (if find_path rest (idx + 1) pos pos max_dist is_exact then True
         else find_path_from candidates rest idx prev_pos first_pos max_dist is_exact)
      else if pos > prev_pos then
        (if is_exact \<and> pos \<noteq> prev_pos + 1 then
           find_path_from candidates rest idx prev_pos first_pos max_dist is_exact
         else if pos - first_pos > max_dist then
           find_path_from candidates rest idx prev_pos first_pos max_dist is_exact
         else if find_path rest (idx + 1) pos first_pos max_dist is_exact then True
         else find_path_from candidates rest idx prev_pos first_pos max_dist is_exact)
      else find_path_from candidates rest idx prev_pos first_pos max_dist is_exact)"

definition check_sequence :: "int list list \<Rightarrow> int \<Rightarrow> bool" where
  "check_sequence positions_list max_dist =
     (let is_exact = (max_dist = int (length positions_list))
      in find_path positions_list 0 (- 1) (- 1) max_dist is_exact)"

text \<open>
  The first loop of \<open>_sequence_search\<close>: the postings of each term in turn; \<open>None\<close> is the
  early \<open>return set()\<close> at the first term without postings.
\<close>

fun fetch_postings :: "reader \<Rightarrow> string list \<Rightarrow> error + (int \<times> int list) list list option" where
  "fetch_postings r [] = Inr (Some [])"
| "fetch_postings r (t # ts) =
     (case get_postings r t of
        Inl e \<Rightarrow> Inl e
      | Inr p \<Rightarrow>
          if p = [] then Inr None
          else (case fetch_postings r ts of
                  Inl e \<Rightarrow> Inl e
                | Inr None \<Rightarrow> Inr None
                | Inr (Some ps) \<Rightarrow> Inr (Some (p # ps))))"

text \<open>
  \<open>term_postings[i][doc_id]\<close> for a \<open>doc_id\<close> of \<open>common_docs\<close>, which is a key of every
  posting dictionary, so the lookup never raises.
\<close>

definition positions_of :: "(int \<times> int list) list \<Rightarrow> int \<Rightarrow> int list" where
  "positions_of p doc_id = (case map_of p doc_id of Some positions \<Rightarrow> positions | None \<Rightarrow> [])"

definition sequence_search :: "search_engine \<Rightarrow> string list \<Rightarrow> int \<Rightarrow> error + int set" where
  "sequence_search e terms max_dist =
     (if terms = [] then Inr {}
      else
        (case fetch_postings (reader e) terms of
           Inl err \<Rightarrow> Inl err
         | Inr None \<Rightarrow> Inr {}
         | Inr (Some term_postings) \<Rightarrow>
             (let common_docs =
                    fold (\<lambda>p docs. docs \<inter> set (map fst p)) (tl term_postings)
                      (set (map fst (hd term_postings)))
              in Inr {doc_id \<in> common_docs.
                        check_sequence (map (\<lambda>p. positions_of p doc_id) term_postings) max_dist})))"

subsection \<open>\<open>_solve_rpn\<close> and \<open>execute\<close>\<close>

text \<open>
  One iteration of the loop of \<open>_solve_rpn\<close>.  The stack of document sets is a list whose
  head is the top (\<open>stack[-1]\<close>); \<open>stack[0]\<close> is its last element.
\<close>

fun rpn_step :: "search_engine \<Rightarrow> int set list \<Rightarrow> token \<Rightarrow> error + int set list" where
  "rpn_step e stack (TERM_tok val) =
     (let stems = tokenizer e val
      in if stems \<noteq> [] then
           (case get_postings (reader e) (hd stems) of
              Inl err \<Rightarrow> Inl err
            | Inr postings \<Rightarrow> Inr (set (map fst postings) # stack))
         else Inr ({} # stack))"
| "rpn_step e stack (PHRASE val) =
     (let terms = tokenizer e val
      in case sequence_search e terms (int (length terms)) of
           Inl err \<Rightarrow> Inl err
         | Inr docs \<Rightarrow> Inr (docs # stack))"
| "rpn_step e stack (PROXIMITY val dist) =
     (let terms = tokenizer e val
      in case sequence_search e terms dist of
           Inl err \<Rightarrow> Inl err
         | Inr docs \<Rightarrow> Inr (docs # stack))"
| "rpn_step e stack (OP val) =
     (if val = ''!'' then
        (case stack of [] \<Rightarrow> Inr stack | a # st \<Rightarrow> Inr ((all_docs e - a) # st))
      else if val = ''&&'' then
        (case stack of b # a # st \<Rightarrow> Inr ((a \<inter> b) # st) | _ \<Rightarrow> Inr stack)
      else if val = ''||'' then
        (case stack of b # a # st \<Rightarrow> Inr ((a \<union> b) # st) | _ \<Rightarrow> Inr stack)
      else Inr stack)"

fun rpn_loop :: "search_engine \<Rightarrow> int set list \<Rightarrow> token list \<Rightarrow> error + int set list" where
  "rpn_loop e stack [] = Inr stack"
| "rpn_loop e stack (token # rpn) =
     (case rpn_step e stack token of Inl err \<Rightarrow> Inl err | Inr stack' \<Rightarrow> rpn_loop e stack' rpn)"

definition solve_rpn :: "search_engine \<Rightarrow> token list \<Rightarrow> error + int set" where
  "solve_rpn e rpn =
     (case rpn_loop e [] rpn of
        Inl err \<Rightarrow> Inl err
      | Inr stack \<Rightarrow> Inr (if stack \<noteq> [] then last stack else {}))"

definition evaluate_recursive :: "search_engine \<Rightarrow> string list \<Rightarrow> error + int set" where
  "evaluate_recursive e tokens =
     (case to_rpn tokens of Inl err \<Rightarrow> Inl err | Inr output \<Rightarrow> solve_rpn e output)"

definition execute :: "search_engine \<Rightarrow> string \<Rightarrow> error + int set" where
  "execute e query = evaluate_recursive e (tokenize_query query)"

text \<open>
  An RPN fragment \<open>evaluates to\<close> a set when running it pushes exactly that set, whatever
  is on the stack below: the fragment of a complete subexpression.
\<close>

definition evaluates_to :: "search_engine \<Rightarrow> token list \<Rightarrow> int set \<Rightarrow> bool" where
  "evaluates_to e rpn a = (\<forall>stack. rpn_loop e stack rpn = Inr (a # stack))"

section \<open>indexer.py\<close>

definition VERSION :: nat where
  "VERSION = 3"

definition BLOCK_SIZE :: nat where
  "BLOCK_SIZE = 5000"

text \<open>
  \<open>struct.pack\<close> of one unsigned little-endian integer of \<open>n\<close> bytes: \<open>struct.error\<close> when
  the value does not fit.
\<close>

fun le_bytes :: "nat \<Rightarrow> nat \<Rightarrow> bytes" where
  "le_bytes 0 v = []"
| "le_bytes (Suc n) v = char_of v # le_bytes n (v div 256)"

definition pack_uint :: "nat \<Rightarrow> nat \<Rightarrow> error + bytes" where
  "pack_uint n v = (if v < 256 ^ n then Inr (le_bytes n v) else Inl StructError)"

text \<open>
  A posting dictionary \<open>DocId \<rightarrow> positions\<close> and the in-memory index
  \<open>term \<rightarrow> (DocId \<rightarrow> positions)\<close>, Python dictionaries kept as association lists in
  insertion order; \<open>lookup\<close> is \<open>d[k]\<close> for a key of \<open>d\<close> (and the fresh empty value of a
  \<open>defaultdict\<close> for any other key).
\<close>

type_synonym doc_map = "(int \<times> int list) list"

type_synonym inverted_index = "(string \<times> doc_map) list"

definition lookup :: "('k \<times> 'v list) list \<Rightarrow> 'k \<Rightarrow> 'v list" where
  "lookup d k = (case map_of d k of Some v \<Rightarrow> v | None \<Rightarrow> [])"

subsection \<open>\<open>write_docs_index\<close>\<close>

text \<open>The loop over \<open>doc_infos\<close> that fills \<open>data_buffer\<close> and \<open>offsets\<close>.\<close>

fun docs_buffer ::
  "(string \<times> string) list \<Rightarrow> bytes \<Rightarrow> nat list \<Rightarrow> error + (bytes \<times> nat list)" where
  "docs_buffer [] data_buffer offsets = Inr (data_buffer, offsets)"
| "docs_buffer ((u, t) # infos) data_buffer offsets =
     (let encoded_url = take 65535 u;
          encoded_title = (if t \<noteq> [] then take 65535 t else [])
      in case pack_uint 2 (length encoded_url) of Inl e \<Rightarrow> Inl e | Inr l1 \<Rightarrow>
         case pack_uint 2 (length encoded_title) of Inl e \<Rightarrow> Inl e | Inr l2 \<Rightarrow>
         docs_buffer infos (data_buffer @ l1 @ encoded_url @ l2 @ encoded_title)
           (offsets @ [length data_buffer]))"

text \<open>The loop \<open>for off in offsets: f.write(struct.pack('<Q', base_offset + off))\<close>.\<close>

fun pack_offsets :: "nat \<Rightarrow> nat list \<Rightarrow> error + bytes" where
  "pack_offsets base_offset [] = Inr []"
| "pack_offsets base_offset (off # offsets) =
     (case pack_uint 8 (base_offset + off) of Inl e \<Rightarrow> Inl e | Inr b \<Rightarrow>
      case pack_offsets base_offset offsets of Inl e \<Rightarrow> Inl e | Inr bs \<Rightarrow> Inr (b @ bs))"

text \<open>\<open>write_docs_index\<close>: the contents of \<open>index.docs\<close>.\<close>

definition write_docs_index :: "(string \<times> string) list \<Rightarrow> error + bytes" where
  "write_docs_index infos =
     (let count = length infos
      in case docs_buffer infos [] [] of Inl e \<Rightarrow> Inl e | Inr (data_buffer, offsets) \<Rightarrow>
         case pack_uint 2 VERSION of Inl e \<Rightarrow> Inl e | Inr ver \<Rightarrow>
         case pack_uint 4 count of Inl e \<Rightarrow> Inl e | Inr cnt \<Rightarrow>
         case pack_offsets (length (''DOCS'' @ ver @ cnt) + count * 8) offsets of
           Inl e \<Rightarrow> Inl e
         | Inr offs \<Rightarrow> Inr (''DOCS'' @ ver @ cnt @ offs @ data_buffer))"

subsection \<open>Temporary blocks and their merge\<close>

text \<open>
  \<open>save_temp_block\<close> followed by \<open>block_reader\<close>: the items \<open>(term, index[term])\<close> of a
  block file, in ascending order of the terms.
\<close>

definition save_temp_block :: "inverted_index \<Rightarrow> (string \<times> doc_map) list" where
  "save_temp_block index = map (\<lambda>term. (term, lookup index term)) (sort (map fst index))"

text \<open>
  \<open>heapq.merge(*iterators, key=lambda x: x[0])\<close>: the next item is the head with the
  least term among the heads of the blocks, the earliest block winning a tie.
  \<open>pop_min\<close> takes that item off its block.
\<close>

fun pop_min ::
  "(string \<times> doc_map) list list \<Rightarrow> ((string \<times> doc_map) \<times> (string \<times> doc_map) list list) option" where
  "pop_min [] = None"
| "pop_min ([] # bs) =
     (case pop_min bs of None \<Rightarrow> None | Some (y, bs') \<Rightarrow> Some (y, [] # bs'))"
| "pop_min ((x # xs) # bs) =
     (case pop_min bs of
        None \<Rightarrow> Some (x, xs # bs)
      | Some (y, bs') \<Rightarrow>
          if fst x \<le> fst y then Some (x, xs # bs) else Some (y, (x # xs) # bs'))"

function merged_stream :: "(string \<times> doc_map) list list \<Rightarrow> (string \<times> doc_map) list" where
  "merged_stream bs =
     (case pop_min bs of None \<Rightarrow> [] | Some (x, bs') \<Rightarrow> x # merged_stream bs')"
  by pat_completeness auto
termination
proof (relation "measure (\<lambda>bs. sum_list (map length bs))")
  show "wf (measure (\<lambda>bs. sum_list (map length bs)))" by simp
next
  fix bs :: "(string \<times> doc_map) list list" and x2 x y
  have dec: "pop_min cs = Some (z, cs') \<Longrightarrow>
             sum_list (map length cs) = Suc (sum_list (map length cs'))" for cs z cs'
    by (induction cs arbitrary: z cs' rule: pop_min.induct)
       (auto split: option.splits if_splits)
  assume "pop_min bs = Some x2" and "(x, y) = x2"
  then have "pop_min bs = Some (x, y)" by simp
  then show "(y, bs) \<in> measure (\<lambda>bs. sum_list (map length bs))"
    using dec by simp
qed

declare merged_stream.simps [simp del]

text \<open>\<open>current_docs.update(doc_map)\<close>\<close>

definition dict_update :: "doc_map \<Rightarrow> doc_map \<Rightarrow> doc_map" where
  "dict_update current_docs dm = fold (\<lambda>(k, v) d. AList.update k v d) dm current_docs"

text \<open>
  The varbyte encodings of a list of numbers, one after the other, as the loop
  \<open>for pos_d in pos_deltas: f_post.write(compression.encode_varbyte(pos_d))\<close> writes them.
\<close>

fun encode_all :: "int list \<Rightarrow> error + bytes" where
  "encode_all [] = Inr []"
| "encode_all (n # ns) =
     (case encode_varbyte n of Inl e \<Rightarrow> Inl e | Inr b \<Rightarrow>
      case encode_all ns of Inl e \<Rightarrow> Inl e | Inr bs \<Rightarrow> Inr (b @ bs))"

text \<open>
  The loop \<open>for i, doc_id in enumerate(doc_ids)\<close> of \<open>write_term_entry\<close>, over the document
  ids paired with their deltas: the bytes written to the postings file.
\<close>

fun write_postings :: "doc_map \<Rightarrow> (int \<times> int) list \<Rightarrow> error + bytes" where
  "write_postings dm [] = Inr []"
| "write_postings dm ((doc_id, doc_delta) # rest) =
     (case encode_varbyte doc_delta of Inl e \<Rightarrow> Inl e | Inr b1 \<Rightarrow>
      let positions = sort (lookup dm doc_id);
          freq = length positions
      in case encode_varbyte (int freq) of Inl e \<Rightarrow> Inl e | Inr b2 \<Rightarrow>
         case encode_all (encode_delta positions) of Inl e \<Rightarrow> Inl e | Inr b3 \<Rightarrow>
         case write_postings dm rest of Inl e \<Rightarrow> Inl e | Inr bs \<Rightarrow> Inr (b1 @ b2 @ b3 @ bs))"

text \<open>
  \<open>write_term_entry\<close>: the dictionary file and the postings file after the entry of
  \<open>term\<close> has been appended to both; \<open>f_post.tell()\<close> is the length of what has been
  written to the postings file.
\<close>

definition write_term_entry ::
  "string \<Rightarrow> doc_map \<Rightarrow> bytes \<times> bytes \<Rightarrow> error + (bytes \<times> bytes)" where
  "write_term_entry term dm files =
     (case files of (f_dict, f_post) \<Rightarrow>
        let doc_ids = sort (map fst dm);
            doc_count = length doc_ids;
            offset = length f_post
        in case encode_varbyte (int doc_count) of Inl e \<Rightarrow> Inl e | Inr b0 \<Rightarrow>
           case write_postings dm (zip doc_ids (encode_delta doc_ids)) of
             Inl e \<Rightarrow> Inl e
           | Inr bs \<Rightarrow>
               let term_bytes = take 255 term
               in case pack_uint 1 (length term_bytes) of Inl e \<Rightarrow> Inl e | Inr l \<Rightarrow>
                  case pack_uint 8 offset of Inl e \<Rightarrow> Inl e | Inr off \<Rightarrow>
                  case pack_uint 4 doc_count of Inl e \<Rightarrow> Inl e | Inr cnt \<Rightarrow>
                  Inr (f_dict @ l @ term_bytes @ off @ cnt, f_post @ b0 @ bs))"

text \<open>
  The loop \<open>for term, doc_map in merged_stream\<close> of \<open>merge_blocks\<close>.  \<open>current\<close> is
  \<open>None\<close> while \<open>current_term is None\<close>, and the pair of \<open>current_term\<close> and \<open>current_docs\<close>
  afterwards; the result is the files, the number of terms written and \<open>current\<close> at the
  end of the stream.
\<close>

fun merge_loop ::
  "(string \<times> doc_map) list \<Rightarrow> (string \<times> doc_map) option \<Rightarrow> (bytes \<times> bytes) \<Rightarrow> nat
     \<Rightarrow> error + ((string \<times> doc_map) option \<times> (bytes \<times> bytes) \<times> nat)" where
  "merge_loop [] current files term_count = Inr (current, files, term_count)"
| "merge_loop ((term, dm) # stream) None files term_count =
     merge_loop stream (Some (term, dm)) files term_count"
| "merge_loop ((term, dm) # stream) (Some (current_term, current_docs)) files term_count =
     (if term \<noteq> current_term then
        (case write_term_entry current_term current_docs files of
           Inl e \<Rightarrow> Inl e
         | Inr files' \<Rightarrow> merge_loop stream (Some (term, dm)) files' (term_count + 1))
      else merge_loop stream (Some (current_term, dict_update current_docs dm)) files term_count)"

text \<open>\<open>merge_blocks\<close>: the contents of \<open>index.dict\<close> and of \<open>index.postings\<close>.\<close>

definition merge_blocks :: "(string \<times> doc_map) list list \<Rightarrow> error + (bytes \<times> bytes)" where
  "merge_blocks blocks =
     (case pack_uint 2 VERSION of Inl e \<Rightarrow> Inl e | Inr ver \<Rightarrow>
      case pack_uint 4 0 of Inl e \<Rightarrow> Inl e | Inr zero \<Rightarrow>
      case merge_loop (merged_stream blocks) None (''DICT'' @ ver @ zero, ''POST'' @ ver) 0 of
        Inl e \<Rightarrow> Inl e
      | Inr (current, files, term_count) \<Rightarrow>
          (case (case current of
                   None \<Rightarrow> Inr (files, term_count)
                 | Some (current_term, current_docs) \<Rightarrow>
                     (case write_term_entry current_term current_docs files of
                        Inl e \<Rightarrow> Inl e
                      | Inr files' \<Rightarrow> Inr (files', term_count + 1))) of
             Inl e \<Rightarrow> Inl e
           | Inr ((f_dict, f_post), term_count') \<Rightarrow>
               (case pack_uint 4 term_count' of
                  Inl e \<Rightarrow> Inl e
                | Inr cnt \<Rightarrow> Inr (take 6 f_dict @ cnt @ drop 10 f_dict, f_post))))"

subsection \<open>\<open>build_index\<close>\<close>

text \<open>
  A document of the collection, with the values of \<open>doc.get("url", "")\<close>,
  \<open>doc.get("title", "")\<close> and \<open>doc.get("parsed_text", "")\<close>.
\<close>

record document =
  doc_url :: string
  doc_title :: string
  parsed_text :: string

text \<open>\<open>local_index[token][doc_id].append(pos)\<close> on the nested \<open>defaultdict\<close>.\<close>

definition add_position :: "inverted_index \<Rightarrow> string \<Rightarrow> int \<Rightarrow> int \<Rightarrow> inverted_index" where
  "add_position index token doc_id pos =
     (let dm = lookup index token
      in AList.update token (AList.update doc_id (lookup dm doc_id @ [pos]) dm) index)"

text \<open>\<open>for pos, token in enumerate(tokens)\<close>\<close>

fun index_tokens :: "inverted_index \<Rightarrow> int \<Rightarrow> int \<Rightarrow> string list \<Rightarrow> inverted_index" where
  "index_tokens index doc_id pos [] = index"
| "index_tokens index doc_id pos (token # tokens) =
     index_tokens (add_position index token doc_id pos) doc_id (pos + 1) tokens"

text \<open>
  The loop \<open>for doc in cursor\<close>, with the block size as a parameter: the collected
  \<open>doc_infos\<close>, the in-memory index, and the blocks saved so far (\<open>block_id\<close> is their
  number).  The tokenizer is the function \<open>text \<mapsto> tokenizer.tokenize(text)\<close>.
\<close>

fun index_documents ::
  "(string \<Rightarrow> string list) \<Rightarrow> nat \<Rightarrow> document list \<Rightarrow> (string \<times> string) list \<Rightarrow> inverted_index
     \<Rightarrow> nat \<Rightarrow> (string \<times> doc_map) list list
     \<Rightarrow> (string \<times> string) list \<times> inverted_index \<times> (string \<times> doc_map) list list" where
  "index_documents tok block_size [] infos local_index docs_processed blocks =
     (infos, local_index, blocks)"
| "index_documents tok block_size (doc # cursor) infos local_index docs_processed blocks =
     (let doc_id = int docs_processed;
          infos' = infos @ [(doc_url doc, doc_title doc)];
          tokens = tok (parsed_text doc);
          local_index' = index_tokens local_index doc_id 0 tokens;
          docs_processed' = docs_processed + 1
      in if docs_processed' mod block_size = 0
         then index_documents tok block_size cursor infos' [] docs_processed'
                (blocks @ [save_temp_block local_index'])
         else index_documents tok block_size cursor infos' local_index' docs_processed' blocks)"

text \<open>
  \<open>build_index\<close> on the documents the cursor yields: the contents of \<open>index.docs\<close>,
  \<open>index.dict\<close> and \<open>index.postings\<close>.
\<close>

definition build_index ::
  "(string \<Rightarrow> string list) \<Rightarrow> document list \<Rightarrow> error + (bytes \<times> bytes \<times> bytes)" where
  "build_index tok cursor =
     (case index_documents tok BLOCK_SIZE cursor [] [] 0 [] of
        (infos, local_index, blocks) \<Rightarrow>
          let blocks' = (if local_index \<noteq> [] then blocks @ [save_temp_block local_index]
                         else blocks)
          in case write_docs_index infos of Inl e \<Rightarrow> Inl e | Inr index_docs \<Rightarrow>
             case merge_blocks blocks' of Inl e \<Rightarrow> Inl e | Inr (index_dict, index_postings) \<Rightarrow>
             Inr (index_docs, index_dict, index_postings))"

section \<open>Reading the dictionary file back\<close>

text \<open>
  The serialized term byte strings of the entries of an \<open>index.dict\<close> file, in file
  order: the count of the header, then for each entry the length byte, the term bytes,
  and twelve bytes of offset and document count.
\<close>

fun parse_terms :: "nat \<Rightarrow> bytes \<Rightarrow> bytes list" where
  "parse_terms 0 bs = []"
| "parse_terms (Suc k) [] = []"
| "parse_terms (Suc k) (l # rest) =
     take (of_char l) rest # parse_terms k (drop (of_char l + 12) rest)"

definition dict_terms :: "bytes \<Rightarrow> bytes list" where
  "dict_terms f = parse_terms (le_value (take 4 (drop 6 f))) (drop 10 f)"

text \<open>The terms that the tokenizer emits over the documents of a build.\<close>

definition corpus_terms :: "(string \<Rightarrow> string list) \<Rightarrow> document list \<Rightarrow> string set" where
  "corpus_terms tok cursor = (\<Union>doc \<in> set cursor. set (tok (parsed_text doc)))"

section \<open>A small index for concrete runs\<close>

text \<open>
  Two documents, one term \<open>a\<close> whose postings (one document, id 0, one position 0) start
  right after the six header bytes of the postings file, and a tokenizer that returns
  its input as the only token.
\<close>

definition tiny_reader :: reader where
  "tiny_reader =
     \<lparr>doc_infos = [\<lparr>url = ''u0'', title = ''t0''\<rparr>, \<lparr>url = ''u1'', title = ''t1''\<rparr>],
      term_dict = [(''a'', (6, 1))],
      post_file = ''POST'' @ [CHR 0x03, CHR 0x00] @ [CHR 0x01, CHR 0x00, CHR 0x01, CHR 0x00]\<rparr>"

definition tiny_engine :: search_engine where
  "tiny_engine = SearchEngine tiny_reader (\<lambda>text. [text])"


section \<open>tokenizer_wrapper.py: TokenizerClient\<close>

text \<open>
  The child process as the client sees it: whether writing to its stdin raises
  \<open>BrokenPipeError\<close>, the lines it writes to its stdout in answer to a request line, and
  the lines waiting in the stdout pipe.  A line is what \<open>readline()\<close> returns, with its
  newline; when no line is left \<open>readline()\<close> returns the empty string (end of file: the
  child has exited or closed its stdout).
\<close>

record tokenizer_process =
  stdin_broken :: bool
  child :: "string \<Rightarrow> string list"
  stdout :: "string list"

text \<open>
  The loop \<open>while True: line = self.process.stdout.readline() ...\<close>: the tokens read so
  far and the lines left in the pipe afterwards.
\<close>

fun read_tokens :: "string list \<Rightarrow> string list \<Rightarrow> string list \<times> string list" where
  "read_tokens [] tokens = (tokens, [])"
| "read_tokens (line # rest) tokens =
     (if line = [] then (tokens, rest)
      else if strip line = ''__END_DOC__'' then (tokens, rest)
      else if strip line \<noteq> [] then read_tokens rest (tokens @ [strip line])
      else read_tokens rest tokens)"

definition tokenize :: "tokenizer_process \<Rightarrow> string \<Rightarrow> string list \<times> tokenizer_process" where
  "tokenize p text =
     (if text = [] then ([], p)
      else
        (let sanitized_text = map (\<lambda>c. if c = CHR 0x0A then CHR '' '' else c) text
         in if stdin_broken p then ([], p)
            else
              (case read_tokens (stdout p @ child p (sanitized_text @ [CHR 0x0A])) [] of
                 (tokens, rest) \<Rightarrow> (tokens, p\<lparr>stdout := rest\<rparr>))))"






section \<open>The end-to-end scenario\<close>

text \<open>
  Modelled from the spec: the identity tokenizer of the scenarios (lowercased
  whitespace split), which is not part of the repository.  It is a child process that
  answers a request line with its lowercased words, one per line, and the sentinel line;
  the tokenizer function is \<open>TokenizerClient.tokenize\<close> run against that child.
\<close>

definition lower :: "char \<Rightarrow> char" where
  "lower c = (if CHR ''A'' \<le> c \<and> c \<le> CHR ''Z'' then char_of (of_char c + (32 :: nat)) else c)"

fun split_ws :: "string \<Rightarrow> string \<Rightarrow> string list" where
  "split_ws word [] = (if word = [] then [] else [word])"
| "split_ws word (c # cs) =
     (if is_space c then (if word = [] then split_ws [] cs else word # split_ws [] cs)
      else split_ws (word @ [c]) cs)"

definition identity_child :: "string \<Rightarrow> string list" where
  "identity_child request =
     map (\<lambda>w. w @ [CHR 0x0A]) (split_ws [] (map lower request)) @ [''__END_DOC__'' @ [CHR 0x0A]]"

definition identity_tokenizer :: "string \<Rightarrow> string list" where
  "identity_tokenizer text =
     fst (tokenize \<lparr>stdin_broken = False, child = identity_child, stdout = []\<rparr> text)"

text \<open>The four documents of the scenario corpus.\<close>

definition corpus :: "document list" where
  "corpus =
     [\<lparr>doc_url = ''u0'', doc_title = ''t0'', parsed_text = ''the quick brown fox''\<rparr>,
      \<lparr>doc_url = ''u1'', doc_title = ''t1'', parsed_text = ''the lazy brown dog''\<rparr>,
      \<lparr>doc_url = ''u2'', doc_title = ''t2'', parsed_text = ''quick fox quick fox''\<rparr>,
      \<lparr>doc_url = ''u3'', doc_title = ''t3'', parsed_text = ''brown bear sleeps''\<rparr>]"

text \<open>
  Build the index of the corpus, open it, and run a query on the engine over it, each
  step passing on the exception of the step before.
\<close>

definition scenario_engine :: "error + search_engine" where
  "scenario_engine =
     (case build_index identity_tokenizer corpus of
        Inl e \<Rightarrow> Inl e
      | Inr (index_docs, index_dict, index_postings) \<Rightarrow>
          (case CompressedIndexReader index_docs index_dict index_postings of
             Inl e \<Rightarrow> Inl e
           | Inr r \<Rightarrow> Inr (SearchEngine r identity_tokenizer)))"

definition scenario_execute :: "string \<Rightarrow> error + int set" where
  "scenario_execute query =
     (case scenario_engine of Inl e \<Rightarrow> Inl e | Inr e \<Rightarrow> execute e query)"

text \<open>
  The three files that the build writes for the corpus, and the reader that opening
  them gives.
\<close>

definition scenario_docs :: bytes where
  "scenario_docs =
     ''DOCS'' @ le_bytes 2 3 @ le_bytes 4 4
     @ le_bytes 8 42 @ le_bytes 8 50 @ le_bytes 8 58 @ le_bytes 8 66
     @ le_bytes 2 2 @ ''u0'' @ le_bytes 2 2 @ ''t0''
     @ le_bytes 2 2 @ ''u1'' @ le_bytes 2 2 @ ''t1''
     @ le_bytes 2 2 @ ''u2'' @ le_bytes 2 2 @ ''t2''
     @ le_bytes 2 2 @ ''u3'' @ le_bytes 2 2 @ ''t3''"

definition scenario_dict :: bytes where
  "scenario_dict =
     ''DICT'' @ le_bytes 2 3 @ le_bytes 4 8
     @ le_bytes 1 4 @ ''bear'' @ le_bytes 8 6 @ le_bytes 4 1
     @ le_bytes 1 5 @ ''brown'' @ le_bytes 8 10 @ le_bytes 4 3
     @ le_bytes 1 3 @ ''dog'' @ le_bytes 8 20 @ le_bytes 4 1
     @ le_bytes 1 3 @ ''fox'' @ le_bytes 8 24 @ le_bytes 4 2
     @ le_bytes 1 4 @ ''lazy'' @ le_bytes 8 32 @ le_bytes 4 1
     @ le_bytes 1 5 @ ''quick'' @ le_bytes 8 36 @ le_bytes 4 2
     @ le_bytes 1 6 @ ''sleeps'' @ le_bytes 8 44 @ le_bytes 4 1
     @ le_bytes 1 3 @ ''the'' @ le_bytes 8 48 @ le_bytes 4 2"

definition scenario_postings :: bytes where
  "scenario_postings =
     ''POST'' @ le_bytes 2 3
     @ map char_of
         [1, 3, 1, 1,
          3, 0, 1, 2, 1, 1, 2, 2, 1, 0,
          1, 1, 1, 3,
          2, 0, 1, 3, 2, 2, 1, 2,
          1, 1, 1, 1,
          2, 0, 1, 1, 2, 2, 0, 2,
          1, 3, 1, 2,
          2, 0, 1, 0, 1, 1, 0 :: int]"

definition scenario_reader :: reader where
  "scenario_reader =
     \<lparr>doc_infos = [\<lparr>url = ''u0'', title = ''t0''\<rparr>, \<lparr>url = ''u1'', title = ''t1''\<rparr>,
                   \<lparr>url = ''u2'', title = ''t2''\<rparr>, \<lparr>url = ''u3'', title = ''t3''\<rparr>],
      term_dict = [(''bear'', (6, 1)), (''brown'', (10, 3)), (''dog'', (20, 1)), (''fox'', (24, 2)),
                   (''lazy'', (32, 1)), (''quick'', (36, 2)), (''sleeps'', (44, 1)), (''the'', (48, 2))],
      post_file = scenario_postings\<rparr>"


text \<open>
  Two distinct terms of 256 bytes that share their first 255 bytes, a tokenizer that
  emits them for every text, and a one-document collection.
\<close>

definition long_a :: string where
  "long_a = replicate 255 (CHR ''a'') @ ''b''"

definition long_b :: string where
  "long_b = replicate 255 (CHR ''a'') @ ''c''"

definition long_tokenizer :: "string \<Rightarrow> string list" where
  "long_tokenizer text = [long_a, long_b]"

definition long_corpus :: "document list" where
  "long_corpus = [\<lparr>doc_url = ''u0'', doc_title = ''t0'', parsed_text = ''x''\<rparr>]"

text \<open>The term byte strings of the dictionary file that a build writes.\<close>

definition built_dict_terms ::
  "(string \<Rightarrow> string list) \<Rightarrow> document list \<Rightarrow> error + bytes list" where
  "built_dict_terms tok cursor =
     (case build_index tok cursor of
        Inl e \<Rightarrow> Inl e
      | Inr (index_docs, index_dict, index_postings) \<Rightarrow> Inr (dict_terms index_dict))"

section \<open>The safety margins of the sliding buffer\<close>

text \<open>
  \<open>get_postings\<close> refills its buffer only before a document entry, when at most 10
  bytes are left, and before a position, when at most 5 bytes are left.  An entry
  fits these margins when the varbytes of the document delta and of the frequency
  take at most 11 bytes together and the varbyte of every position delta takes at
  most 6 bytes; the leading document count is decoded from the first chunk.
  \<open>entries_fit\<close> says so of the pairs of document id and delta that
  \<open>write_term_entry\<close> walks over, \<open>within_margins\<close> of a whole posting dictionary.
\<close>

definition entries_fit :: "doc_map \<Rightarrow> (int \<times> int) list \<Rightarrow> bool" where
  "entries_fit dm items =
     list_all (\<lambda>(doc_id, doc_delta).
        length (varbyte_bytes doc_delta)
          + length (varbyte_bytes (int (length (lookup dm doc_id)))) \<le> 11
        \<and> list_all (\<lambda>pos_d. length (varbyte_bytes pos_d) \<le> 6)
              (encode_delta (sort (lookup dm doc_id)))) items"

definition within_margins :: "doc_map \<Rightarrow> bool" where
  "within_margins dm =
     (let doc_ids = sort (map fst dm)
      in length (varbyte_bytes (int (length doc_ids))) \<le> buffer_size
         \<and> entries_fit dm (zip doc_ids (encode_delta doc_ids)))"







section \<open>Auxiliary notions for the proofs\<close>

text \<open>
  A dictionary entry for a term: the length byte and the first 255 bytes of the term,
  followed by the twelve bytes of offset and document count.
\<close>

definition is_entry :: "bytes \<Rightarrow> string \<Rightarrow> bool" where
  "is_entry e term =
     (\<exists>tail. length tail = 12 \<and> e = char_of (length (take 255 term)) # take 255 term @ tail)"

text \<open>\<open>current_term\<close> as a list: empty while it is \<open>None\<close>.\<close>

fun current_list :: "(string \<times> doc_map) option \<Rightarrow> string list" where
  "current_list None = []"
| "current_list (Some (current_term, current_docs)) = [current_term]"

text \<open>The terms held by a list of temporary blocks.\<close>

definition block_keys :: "(string \<times> doc_map) list list \<Rightarrow> string set" where
  "block_keys blocks = (\<Union>b \<in> set blocks. fst ` set b)"



section \<open>The varbyte codec\<close>

lemma encode_varbyte_loop_eq: "encode_varbyte_loop out n = out @ varbyte_bytes n"
proof (induction out n rule: encode_varbyte_loop.induct)
  case (1 out number)
  show ?case
  proof (cases "number \<ge> 128")
    case True
    then show ?thesis
      using "1.IH" [OF True]
      by (subst encode_varbyte_loop.simps, subst varbyte_bytes.simps) simp
  next
    case False
    then show ?thesis
      by (subst encode_varbyte_loop.simps, subst varbyte_bytes.simps) simp
  qed
qed

lemma char_of_zero: "char_of (0::int) = CHR 0x00"
  by code_simp

lemma encode_varbyte_eq: "0 \<le> n \<Longrightarrow> encode_varbyte n = Inr (varbyte_bytes n)"
  by (simp add: encode_varbyte_def encode_varbyte_loop_eq varbyte_bytes.simps [of 0] char_of_zero)

lemma and_7F: "(n::int) AND 0x7F = n mod 128"
proof -
  have "take_bit 7 n = n AND 0x7F" by (simp add: take_bit_eq_mask mask_eq_exp_minus_1)
  then show ?thesis by (simp add: take_bit_eq_mod)
qed

lemma and_80_zero_iff: "(b::int) AND 0x80 = 0 \<longleftrightarrow> \<not> bit b 7"
  using and_exp_eq_0_iff_not_bit [of b 7] by simp

lemma or_80: "0 \<le> (m::int) \<Longrightarrow> m < 128 \<Longrightarrow> m OR 0x80 = m + 128"
proof -
  assume a: "0 \<le> m" "m < 128"
  have "take_bit 7 m = m" using a by (simp add: take_bit_eq_mod)
  have "m div 128 = 0" using a by simp
  then have "\<not> bit m 7"
    by (simp add: bit_iff_odd)
  then have "m AND 2 ^ 7 = 0"
    using and_exp_eq_0_iff_not_bit [of m 7] by blast
  then have "m + 2 ^ 7 = m OR 2 ^ 7"
    by (rule disjunctive_add_eq_or)
  then show ?thesis by simp
qed

lemma cont_byte: "of_char (char_of ((n::int) AND 0x7F OR 0x80)) = (n mod 128 + 128 :: int)"
proof -
  have "n AND 0x7F OR 0x80 = n mod 128 + 128"
    by (simp add: and_7F or_80)
  moreover have "(n mod 128 + 128) mod 256 = n mod 128 + 128"
    by (rule mod_pos_pos_trivial) (simp_all add: add.commute)
  ultimately show ?thesis by simp
qed

lemma cont_byte_low: "(n mod 128 + 128) AND 0x7F = (n mod 128 :: int)"
  by (simp add: and_7F)

lemma cont_byte_high: "(n mod 128 + 128) AND 0x80 \<noteq> (0 :: int)"
proof -
  define m where "m = n mod 128"
  have m: "0 \<le> m" "m < 128" by (simp_all add: m_def)
  have "(m + 128) div 128 = 1"
    using m by (intro int_div_pos_eq [where r = m]) simp_all
  then show ?thesis by (simp add: and_80_zero_iff bit_iff_odd m_def)
qed

lemma last_byte: "0 \<le> (n::int) \<Longrightarrow> n < 128 \<Longrightarrow> of_char (char_of n) = n"
  by simp

lemma last_byte_low: "0 \<le> (n::int) \<Longrightarrow> n < 128 \<Longrightarrow> n AND 0x7F = n"
  by (simp add: and_7F)

lemma last_byte_high: "0 \<le> (n::int) \<Longrightarrow> n < 128 \<Longrightarrow> n AND 0x80 = 0"
  by (simp add: and_80_zero_iff bit_iff_odd)

lemma push_low7:
  "(acc OR push_bit shift ((n::int) mod 128)) OR push_bit (shift + 7) (drop_bit 7 n) = acc OR push_bit shift n"
proof -
  have "n mod 128 OR push_bit 7 (drop_bit 7 n) = n"
  proof -
    have "take_bit 7 n + push_bit 7 (drop_bit 7 n) = take_bit 7 n OR push_bit 7 (drop_bit 7 n)"
      by (rule disjunctive_add) (auto simp: bit_simps)
    then show ?thesis
      using bits_ident [of 7 n] by (simp add: take_bit_eq_mod add.commute)
  qed
  then have "push_bit shift n = push_bit shift (n mod 128) OR push_bit shift (push_bit 7 (drop_bit 7 n))"
    by (metis push_bit_or)
  then show ?thesis
    by (simp add: push_bit_push_bit or.assoc add.commute)
qed

lemma decode_varbyte_bytes:
  "0 \<le> n \<Longrightarrow>
   decode_varbyte_loop (pre @ varbyte_bytes n @ rest) (length pre) acc shift
     = Inr (acc OR push_bit shift n, length pre + length (varbyte_bytes n))"
proof (induction n arbitrary: pre acc shift rule: varbyte_bytes.induct)
  case (1 n)
  show ?case
  proof (cases "n \<ge> 128")
    case True
    let ?c = "char_of (n AND 0x7F OR 0x80)"
    have vb: "varbyte_bytes n = ?c # varbyte_bytes (drop_bit 7 n)"
      using True by (subst varbyte_bytes.simps) simp
    have nn: "0 \<le> drop_bit 7 n" using "1.prems" by simp
    have ih: "decode_varbyte_loop ((pre @ [?c]) @ varbyte_bytes (drop_bit 7 n) @ rest) (length (pre @ [?c]))
            (acc OR push_bit shift (n mod 128)) (shift + 7)
          = Inr ((acc OR push_bit shift (n mod 128)) OR push_bit (shift + 7) (drop_bit 7 n),
                 length (pre @ [?c]) + length (varbyte_bytes (drop_bit 7 n)))"
      by (rule "1.IH" [OF True nn])
    have step: "decode_varbyte_loop (pre @ ?c # varbyte_bytes (drop_bit 7 n) @ rest) (length pre) acc shift
       = decode_varbyte_loop (pre @ ?c # varbyte_bytes (drop_bit 7 n) @ rest) (Suc (length pre))
            (acc OR push_bit shift (n mod 128)) (shift + 7)"
      by (subst decode_varbyte_loop.simps)
         (simp add: cont_byte cont_byte_low cont_byte_high Let_def del: of_char_of push_bit_and)
    show ?thesis
      using ih by (simp add: vb step push_low7)
  next
    case False
    have vb: "varbyte_bytes n = [char_of n]"
      using False by (subst varbyte_bytes.simps) simp
    have r: "0 \<le> n" "n < 128" using False "1.prems" by simp_all
    show ?thesis
      by (subst decode_varbyte_loop.simps)
         (simp add: vb last_byte [OF r] last_byte_low [OF r] last_byte_high [OF r] Let_def del: of_char_of push_bit_and)
  qed
qed

lemma bit_length_0: "bit_length 0 = 0"
  by (simp add: bit_length.simps)

lemma bit_length_pos: "0 < n \<Longrightarrow> bit_length n = Suc (bit_length (n div 2))"
  by (subst bit_length.simps) simp

lemma bit_length_le: "n < 2 ^ k \<Longrightarrow> bit_length n \<le> k"
proof (induction k arbitrary: n)
  case 0
  then show ?case by (simp add: bit_length_0)
next
  case (Suc k)
  show ?case
  proof (cases "n = 0")
    case True
    then show ?thesis by (simp add: bit_length_0)
  next
    case False
    have "n div 2 < 2 ^ k" using Suc.prems by simp
    then have "bit_length (n div 2) \<le> k" by (rule Suc.IH)
    then show ?thesis using False by (simp add: bit_length_pos)
  qed
qed

lemma bit_length_div_pow: "2 ^ k \<le> n \<Longrightarrow> bit_length n = bit_length (n div 2 ^ k) + k"
proof (induction k)
  case 0
  then show ?case by simp
next
  case (Suc k)
  have le: "(2::nat) ^ k \<le> n" using Suc.prems by simp
  have "0 < n div 2 ^ k"
    using le by (simp add: div_greater_zero_iff)
  then have "bit_length (n div 2 ^ k) = Suc (bit_length (n div 2 ^ k div 2))"
    by (rule bit_length_pos)
  moreover have "n div 2 ^ Suc k = n div 2 ^ k div 2"
    unfolding power_Suc2 by (rule div_mult2_eq)
  ultimately show ?case
    using Suc.IH [OF le] by simp
qed

lemma bit_length_div128:
  assumes "128 \<le> n"
  shows "bit_length n = bit_length (n div 128) + 7"
  using bit_length_div_pow [of 7 n] assms by simp

lemma length_varbyte_bytes:
  "0 \<le> n \<Longrightarrow> length (varbyte_bytes n) = max 1 ((bit_length (nat n) + 6) div 7)"
proof (induction n rule: varbyte_bytes.induct)
  case (1 n)
  show ?case
  proof (cases "n \<ge> 128")
    case True
    have vb: "varbyte_bytes n = char_of (n AND 0x7F OR 0x80) # varbyte_bytes (drop_bit 7 n)"
      using True by (subst varbyte_bytes.simps) simp
    have nn: "0 \<le> drop_bit 7 n" using "1.prems" by simp
    have ih: "length (varbyte_bytes (drop_bit 7 n)) = max 1 ((bit_length (nat (drop_bit 7 n)) + 6) div 7)"
      by (rule "1.IH" [OF True nn])
    have dn: "nat (drop_bit 7 n) = nat n div 128"
      using "1.prems" by (simp add: drop_bit_eq_div nat_div_distrib)
    have big: "128 \<le> nat n" using True by simp
    have bl: "bit_length (nat n) = bit_length (nat n div 128) + 7"
      by (rule bit_length_div128 [OF big])
    have "0 < nat n div 128" using big by (simp add: div_greater_zero_iff)
    then have "1 \<le> bit_length (nat n div 128)" by (simp add: bit_length_pos)
    then show ?thesis
      by (simp add: vb ih dn bl)
  next
    case False
    have vb: "varbyte_bytes n = [char_of n]"
      using False by (subst varbyte_bytes.simps) simp
    show ?thesis
    proof (cases "n = 0")
      case True
      then show ?thesis using vb by (simp add: bit_length_0)
    next
      case nz: False
      have "nat n < 2 ^ 7" using False "1.prems" by simp
      then have "bit_length (nat n) \<le> 7" by (rule bit_length_le)
      moreover have "1 \<le> bit_length (nat n)" using nz "1.prems" by (simp add: bit_length_pos)
      ultimately have "(bit_length (nat n) + 6) div 7 = 1" by simp
      then show ?thesis by (simp add: vb)
    qed
  qed
qed

lemma decode_varbyte_loop_truncated:
  "(\<forall>i. offset \<le> i \<and> i < length data \<longrightarrow> (of_char (data ! i) :: int) AND 0x80 \<noteq> 0) \<Longrightarrow>
   decode_varbyte_loop data offset number shift = Inl IndexError"
proof (induction data offset number shift rule: decode_varbyte_loop.induct)
  case (1 data offset number shift)
  show ?case
  proof (cases "offset \<ge> length data")
    case True
    then show ?thesis by (subst decode_varbyte_loop.simps) simp
  next
    case False
    have hb: "(of_char (data ! offset) :: int) AND 0x80 \<noteq> 0"
      using False "1.prems" by simp
    have rest: "\<forall>i. offset + 1 \<le> i \<and> i < length data \<longrightarrow> (of_char (data ! i) :: int) AND 0x80 \<noteq> 0"
      using "1.prems" by simp
    have "decode_varbyte_loop data (offset + 1)
            (number OR push_bit shift ((of_char (data ! offset) :: int) AND 0x7F)) (shift + 7) = Inl IndexError"
      using False hb rest by (intro "1.IH") simp_all
    then show ?thesis
      using False hb by (subst decode_varbyte_loop.simps) (simp add: Let_def del: push_bit_and)
  qed
qed

text \<open>
  Claim C2 (varbyte codec contract).  For every non-negative integer \<open>n\<close>,
  \<open>encode_varbyte n\<close> succeeds with a byte string \<open>bs\<close>, decoding \<open>bs\<close> from offset 0
  returns \<open>(n, length bs)\<close>, and \<open>length bs = max 1 \<lceil>bits n / 7\<rceil>\<close>; zero encodes as the
  single byte \<open>0x00\<close>; and decoding from an offset after which every byte of the buffer
  has its high bit set (the buffer ends in the middle of a number) raises the
  end-of-stream \<open>IndexError\<close> instead of returning a value.
\<close>

theorem varbyte_codec_contract:
  "(0 \<le> n \<longrightarrow>
      (\<exists>bs. encode_varbyte n = Inr bs \<and>
            decode_varbyte_stream bs 0 = Inr (n, length bs) \<and>
            length bs = max 1 ((bit_length (nat n) + 6) div 7)))
   \<and> encode_varbyte 0 = Inr [CHR 0x00]
   \<and> ((\<forall>i. offset \<le> i \<and> i < length data \<longrightarrow> (of_char (data ! i) :: int) AND 0x80 \<noteq> 0) \<longrightarrow>
        decode_varbyte_stream data offset = Inl IndexError)"
proof (intro conjI impI)
  assume n: "0 \<le> n"
  have "decode_varbyte_loop ([] @ varbyte_bytes n @ []) (length ([] :: bytes)) 0 0
          = Inr (0 OR push_bit 0 n, length ([] :: bytes) + length (varbyte_bytes n))"
    by (rule decode_varbyte_bytes [OF n])
  then have "decode_varbyte_stream (varbyte_bytes n) 0 = Inr (n, length (varbyte_bytes n))"
    by (simp add: decode_varbyte_stream_def)
  then show "\<exists>bs. encode_varbyte n = Inr bs \<and>
            decode_varbyte_stream bs 0 = Inr (n, length bs) \<and>
            length bs = max 1 ((bit_length (nat n) + 6) div 7)"
    using n by (simp add: encode_varbyte_eq length_varbyte_bytes)
next
  show "encode_varbyte 0 = Inr [CHR 0x00]"
    by (simp add: encode_varbyte_def)
next
  assume "\<forall>i. offset \<le> i \<and> i < length data \<longrightarrow> (of_char (data ! i) :: int) AND 0x80 \<noteq> 0"
  then show "decode_varbyte_stream data offset = Inl IndexError"
    unfolding decode_varbyte_stream_def by (rule decode_varbyte_loop_truncated)
qed

theorem varbyte_codec_contract_witness:
  "(0::int) \<le> 300
   \<and> encode_varbyte 300 = Inr [CHR 0xAC, CHR 0x02]
   \<and> decode_varbyte_stream [CHR 0xAC, CHR 0x02] 0 = Inr (300, 2)
   \<and> list_all (\<lambda>b. (of_char b :: int) AND 0x80 \<noteq> 0) [CHR 0xAC, CHR 0x82]
   \<and> decode_varbyte_stream [CHR 0xAC, CHR 0x82] 0 = Inl IndexError"
proof -
  have e: "encode_varbyte 300 = Inr [CHR 0xAC, CHR 0x02]"
    by code_simp
  have h: "\<forall>i. (0::nat) \<le> i \<and> i < length [CHR 0xAC, CHR 0x82] \<longrightarrow>
         (of_char ([CHR 0xAC, CHR 0x82] ! i) :: int) AND 0x80 \<noteq> 0"
  proof (intro allI impI)
    fix i :: nat
    assume "0 \<le> i \<and> i < length [CHR 0xAC, CHR 0x82]"
    then have "i = 0 \<or> i = 1" by auto
    then show "(of_char ([CHR 0xAC, CHR 0x82] ! i) :: int) AND 0x80 \<noteq> 0"
      by (auto simp: and_80_zero_iff bit_iff_odd)
  qed
  have l: "list_all (\<lambda>b. (of_char b :: int) AND 0x80 \<noteq> 0) [CHR 0xAC, CHR 0x82]"
    by (simp add: and_80_zero_iff bit_iff_odd)
  from varbyte_codec_contract [of 300 0 "[CHR 0xAC, CHR 0x82]"] e h l
  show ?thesis by simp
qed


section \<open>Document lookup\<close>

text \<open>
  Claim C10 (total document lookup).  \<open>get_doc_info\<close> is defined on every integer: for
  \<open>0 \<le> doc_id < N\<close> it is the record loaded for that id, and for every other \<open>doc_id\<close>
  (negative or at least \<open>N\<close>) it is the record with empty url and empty title;
  \<open>get_doc_url\<close> is then the empty string.
\<close>

theorem get_doc_info_total:
  "(0 \<le> doc_id \<and> doc_id < int (length (doc_infos r)) \<longrightarrow>
      get_doc_info r doc_id = doc_infos r ! nat doc_id \<and>
      get_doc_url r doc_id = url (doc_infos r ! nat doc_id))
   \<and> (doc_id < 0 \<or> int (length (doc_infos r)) \<le> doc_id \<longrightarrow>
      get_doc_info r doc_id = \<lparr>url = '''', title = ''''\<rparr> \<and>
      get_doc_url r doc_id = '''')"
  by (auto simp: get_doc_info_def get_doc_url_def)

theorem get_doc_info_total_witness:
  "get_doc_info \<lparr>doc_infos = [\<lparr>url = ''u0'', title = ''t0''\<rparr>, \<lparr>url = ''u1'', title = ''t1''\<rparr>],
                  term_dict = [], post_file = []\<rparr> 1 = \<lparr>url = ''u1'', title = ''t1''\<rparr>
   \<and> get_doc_info \<lparr>doc_infos = [\<lparr>url = ''u0'', title = ''t0''\<rparr>, \<lparr>url = ''u1'', title = ''t1''\<rparr>],
                  term_dict = [], post_file = []\<rparr> (- 1) = \<lparr>url = '''', title = ''''\<rparr>
   \<and> get_doc_url \<lparr>doc_infos = [\<lparr>url = ''u0'', title = ''t0''\<rparr>, \<lparr>url = ''u1'', title = ''t1''\<rparr>],
                  term_dict = [], post_file = []\<rparr> 2 = ''''"
  using
    get_doc_info_total [of 1 "\<lparr>doc_infos = [\<lparr>url = ''u0'', title = ''t0''\<rparr>, \<lparr>url = ''u1'', title = ''t1''\<rparr>],
                  term_dict = [], post_file = []\<rparr>"]
    get_doc_info_total [of "- 1" "\<lparr>doc_infos = [\<lparr>url = ''u0'', title = ''t0''\<rparr>, \<lparr>url = ''u1'', title = ''t1''\<rparr>],
                  term_dict = [], post_file = []\<rparr>"]
    get_doc_info_total [of 2 "\<lparr>doc_infos = [\<lparr>url = ''u0'', title = ''t0''\<rparr>, \<lparr>url = ''u1'', title = ''t1''\<rparr>],
                  term_dict = [], post_file = []\<rparr>"]
  by simp

section \<open>The RPN evaluator\<close>

lemma rpn_loop_append:
  "rpn_loop e stack (xs @ ys) =
     (case rpn_loop e stack xs of Inl err \<Rightarrow> Inl err | Inr st \<Rightarrow> rpn_loop e st ys)"
  by (induction xs arbitrary: stack) (auto split: sum.splits)

lemma evaluates_to_append:
  "evaluates_to e A a \<Longrightarrow> rpn_loop e stack (A @ rest) = rpn_loop e (a # stack) rest"
  by (simp add: rpn_loop_append evaluates_to_def)

lemma evaluates_to_solve: "evaluates_to e A a \<Longrightarrow> solve_rpn e A = Inr a"
  by (simp add: solve_rpn_def evaluates_to_def)

lemma rpn_step_not: "rpn_step e (a # st) (OP ''!'') = Inr ((all_docs e - a) # st)"
  by simp

lemma rpn_step_and: "rpn_step e (b # a # st) (OP ''&&'') = Inr ((a \<inter> b) # st)"
  by simp

lemma rpn_step_or: "rpn_step e (b # a # st) (OP ''||'') = Inr ((a \<union> b) # st)"
  by simp

lemma tiny_a: "get_postings tiny_reader ''a'' = Inr [(0, [0])]"
  by (simp add: get_postings_def tiny_reader_def file_read_def buffer_size_def refill_def
      decode_varbyte_stream_def decode_varbyte_loop.simps)

lemma tiny_b: "get_postings tiny_reader ''b'' = Inr []"
  by (simp add: get_postings_def tiny_reader_def)

lemma tiny_all: "all_docs tiny_engine = {0, 1}"
  by (auto simp: tiny_engine_def SearchEngine_def tiny_reader_def)

lemma tiny_ev_a: "evaluates_to tiny_engine [TERM_tok ''a''] {0}"
  by (simp add: evaluates_to_def tiny_engine_def SearchEngine_def tiny_a)

lemma tiny_ev_b: "evaluates_to tiny_engine [TERM_tok ''b''] {}"
  by (simp add: evaluates_to_def tiny_engine_def SearchEngine_def tiny_b)

text \<open>
  Claim C4 (Boolean laws).  Let the RPN fragments \<open>A\<close>, \<open>B\<close>, \<open>C\<close> evaluate to the document
  sets \<open>a\<close>, \<open>b\<close>, \<open>c\<close>, with \<open>a\<close> inside the universe \<open>all_docs\<close>.  Then, evaluating the RPN
  of each expression: \<open>A && !A\<close> is empty, \<open>A || !A\<close> is the universe, \<open>!(!A)\<close> equals \<open>A\<close>,
  \<open>A && B\<close> equals \<open>B && A\<close>, and \<open>A || (B && C)\<close> equals \<open>(A || B) && (A || C)\<close>.
\<close>

theorem boolean_laws:
  assumes A: "evaluates_to e A a" and B: "evaluates_to e B b" and C: "evaluates_to e C c"
    and U: "a \<subseteq> all_docs e"
  shows "solve_rpn e (A @ A @ [OP ''!'', OP ''&&'']) = Inr {}
       \<and> solve_rpn e (A @ A @ [OP ''!'', OP ''||'']) = Inr (all_docs e)
       \<and> solve_rpn e (A @ [OP ''!'', OP ''!'']) = solve_rpn e A
       \<and> solve_rpn e (A @ B @ [OP ''&&'']) = solve_rpn e (B @ A @ [OP ''&&''])
       \<and> solve_rpn e (A @ B @ C @ [OP ''&&'', OP ''||''])
           = solve_rpn e (A @ B @ [OP ''||''] @ A @ C @ [OP ''||'', OP ''&&''])"
proof (intro conjI)
  show "solve_rpn e (A @ A @ [OP ''!'', OP ''&&'']) = Inr {}"
    by (simp add: solve_rpn_def evaluates_to_append [OF A])
  show "solve_rpn e (A @ A @ [OP ''!'', OP ''||'']) = Inr (all_docs e)"
    using U by (auto simp: solve_rpn_def evaluates_to_append [OF A])
  show "solve_rpn e (A @ [OP ''!'', OP ''!'']) = solve_rpn e A"
    using U by (auto simp: solve_rpn_def evaluates_to_append [OF A] evaluates_to_solve [OF A, unfolded solve_rpn_def])
  show "solve_rpn e (A @ B @ [OP ''&&'']) = solve_rpn e (B @ A @ [OP ''&&''])"
    by (auto simp: solve_rpn_def evaluates_to_append [OF A] evaluates_to_append [OF B])
  show "solve_rpn e (A @ B @ C @ [OP ''&&'', OP ''||''])
           = solve_rpn e (A @ B @ [OP ''||''] @ A @ C @ [OP ''||'', OP ''&&''])"
    by (auto simp: solve_rpn_def evaluates_to_append [OF A] evaluates_to_append [OF B]
        evaluates_to_append [OF C])
qed

theorem boolean_laws_witness:
  "evaluates_to tiny_engine [TERM_tok ''a''] {0}
   \<and> evaluates_to tiny_engine [TERM_tok ''b''] {}
   \<and> {0} \<subseteq> all_docs tiny_engine
   \<and> solve_rpn tiny_engine ([TERM_tok ''a''] @ [TERM_tok ''a''] @ [OP ''!'', OP ''&&'']) = Inr {}
   \<and> solve_rpn tiny_engine ([TERM_tok ''a''] @ [TERM_tok ''a''] @ [OP ''!'', OP ''||'']) = Inr {0, 1}
   \<and> solve_rpn tiny_engine ([TERM_tok ''a''] @ [OP ''!'', OP ''!'']) = Inr {0}"
proof -
  have s: "{0} \<subseteq> all_docs tiny_engine" by (simp add: tiny_all)
  from boolean_laws [OF tiny_ev_a tiny_ev_b tiny_ev_a s] tiny_ev_a tiny_ev_b s
  show ?thesis by (simp add: tiny_all evaluates_to_solve [OF tiny_ev_a])
qed

text \<open>
  Claim C8 (underflow tolerance).  A binary operator met with fewer than two sets on the
  stack, and \<open>!\<close> met with an empty stack, leave the stack as it is and raise nothing, so
  the loop goes on as if the operator were absent; the result of \<open>_solve_rpn\<close> is the
  single set left on the stack, and the empty set when the stack is empty.
\<close>

theorem rpn_underflow_tolerance:
  "(length stack < 2 \<longrightarrow>
       rpn_step e stack (OP ''&&'') = Inr stack \<and> rpn_step e stack (OP ''||'') = Inr stack \<and>
       rpn_loop e stack (OP ''&&'' # rpn) = rpn_loop e stack rpn \<and>
       rpn_loop e stack (OP ''||'' # rpn) = rpn_loop e stack rpn)
   \<and> rpn_step e [] (OP ''!'') = Inr []
   \<and> rpn_loop e [] (OP ''!'' # rpn) = rpn_loop e [] rpn
   \<and> (rpn_loop e [] rpn = Inr [s] \<longrightarrow> solve_rpn e rpn = Inr s)
   \<and> (rpn_loop e [] rpn = Inr [] \<longrightarrow> solve_rpn e rpn = Inr {})"
proof -
  have "rpn_step e stack (OP ''&&'') = Inr stack \<and> rpn_step e stack (OP ''||'') = Inr stack"
    if "length stack < 2"
  proof (cases stack)
    case Nil
    then show ?thesis by simp
  next
    case (Cons b st)
    then have "st = []" using that by simp
    then show ?thesis using Cons by simp
  qed
  then show ?thesis by (simp add: solve_rpn_def)
qed

theorem rpn_underflow_tolerance_witness:
  "length [{0::int}] < 2
   \<and> rpn_loop tiny_engine [{0}] [OP ''&&'', OP ''||''] = Inr [{0}]
   \<and> rpn_loop tiny_engine [] [OP ''!'', TERM_tok ''a''] = Inr [{0}]
   \<and> solve_rpn tiny_engine [OP ''!'', TERM_tok ''a''] = Inr {0}
   \<and> rpn_loop tiny_engine [] [OP ''!''] = Inr []
   \<and> solve_rpn tiny_engine [OP ''!''] = Inr {}"
proof -
  have l: "rpn_loop tiny_engine [] [TERM_tok ''a''] = Inr [{0}]"
    using tiny_ev_a by (simp add: evaluates_to_def)
  have l0: "rpn_loop tiny_engine [] [] = Inr []" by simp
  from rpn_underflow_tolerance [of "[{0}]" tiny_engine "[OP ''||'']"]
       rpn_underflow_tolerance [of "[{0}]" tiny_engine "[]"]
       rpn_underflow_tolerance [of "[]" tiny_engine "[TERM_tok ''a'']" "{0}"]
       rpn_underflow_tolerance [of "[]" tiny_engine "[OP ''!'', TERM_tok ''a'']" "{0}"]
       rpn_underflow_tolerance [of "[]" tiny_engine "[]" "{}"]
       rpn_underflow_tolerance [of "[]" tiny_engine "[OP ''!'']" "{}"]
       l l0
  show ?thesis by simp
qed


section \<open>The query lexer and parser\<close>

lemmas lexer_simps = tokenize_query_def scan.simps is_digit_def is_space_def is_word_char_def

lemmas parser_simps = to_rpn_def startswith_def PRECEDENCE_def py_int_def strip_def
  is_digit_def is_space_def

text \<open>
  Two stacked \<open>!\<close>: the second \<open>!\<close> pops the first one (its precedence is not lower) before
  any operand has been output, for every operand word.
\<close>

lemma to_rpn_double_not:
  assumes "\<not> startswith w ''PHRASE:''" and "\<not> startswith w ''NUM:''"
    and "w \<notin> set [''&&'', ''||'', ''!'', ''('', '')'', ''/'']"
  shows "to_rpn [''!'', ''!'', w] = Inr [OP ''!'', TERM_tok w, OP ''!'']"
  using assms by (simp add: to_rpn_def PRECEDENCE_def startswith_def)

text \<open>
  Claim C7 (NOT associativity in parsing).  The claim is that \<open>! ! w\<close> converts to the RPN
  \<open>[w, NOT, NOT]\<close> and evaluates like \<open>w\<close>.  On the small index, the query \<open>! ! a\<close> is
  lexed into \<open>!\<close>, \<open>!\<close>, \<open>a\<close>, but its RPN is \<open>[NOT, a, NOT]\<close>: the leading \<open>NOT\<close> meets an
  empty stack and is ignored, and the query evaluates to the complement \<open>{1}\<close> of the
  postings \<open>{0}\<close> of \<open>a\<close>.
\<close>

theorem double_not_evaluates_as_single_not:
  "tokenize_query ''! ! a'' = [''!'', ''!'', ''a'']
   \<and> to_rpn (tokenize_query ''! ! a'') = Inr [OP ''!'', TERM_tok ''a'', OP ''!'']
   \<and> execute tiny_engine ''! ! a'' = Inr {1}
   \<and> execute tiny_engine ''a'' = Inr {0}"
proof -
  have q1: "tokenize_query ''! ! a'' = [''!'', ''!'', ''a'']"
    by (simp add: lexer_simps)
  have q2: "to_rpn [''!'', ''!'', ''a''] = Inr [OP ''!'', TERM_tok ''a'', OP ''!'']"
    by (simp add: parser_simps)
  have "rpn_loop tiny_engine [] ([TERM_tok ''a''] @ [OP ''!'']) = rpn_loop tiny_engine [{0}] [OP ''!'']"
    by (rule evaluates_to_append [OF tiny_ev_a])
  then have "rpn_loop tiny_engine [] [TERM_tok ''a'', OP ''!''] = Inr [all_docs tiny_engine - {0}]"
    by simp
  then have "rpn_loop tiny_engine [] [OP ''!'', TERM_tok ''a'', OP ''!''] = Inr [all_docs tiny_engine - {0}]"
    by simp
  then have q3: "execute tiny_engine ''! ! a'' = Inr {1}"
    by (auto simp: execute_def evaluate_recursive_def q1 q2 solve_rpn_def tiny_all)
  have q4: "tokenize_query ''a'' = [''a'']"
    by (simp add: lexer_simps)
  have q5: "to_rpn [''a''] = Inr [TERM_tok ''a'']"
    by (simp add: parser_simps)
  have q6: "execute tiny_engine ''a'' = Inr {0}"
    using tiny_ev_a by (simp add: execute_def evaluate_recursive_def q4 q5 evaluates_to_solve)
  show ?thesis using q1 q2 q3 q6 by simp
qed

section \<open>The tokenizer client\<close>








section \<open>Opening an index\<close>















section \<open>Evaluating the build, the loaders and the reader\<close>

lemma length_le_bytes [simp]: "length (le_bytes n v) = n"
  by (induction n arbitrary: v) simp_all

lemma le_value_Cons: "le_value (b # bs) = of_char b + 256 * le_value bs"
  by (simp add: le_value_def)

lemma le_value_le_bytes: "v < 256 ^ n \<Longrightarrow> le_value (le_bytes n v) = v"
proof (induction n arbitrary: v)
  case 0
  then show ?case by (simp add: le_value_def)
next
  case (Suc n)
  have "v div 256 < 256 ^ n" using Suc.prems by (simp add: less_mult_imp_div_less mult.commute)
  then have "le_value (le_bytes n (v div 256)) = v div 256" by (rule Suc.IH)
  then show ?case by (simp add: le_value_Cons)
qed

lemma pack_uint_ok: "v < 256 ^ n \<Longrightarrow> pack_uint n v = Inr (le_bytes n v)"
  by (simp add: pack_uint_def)

lemma unpack_le_bytes: "v < 256 ^ n \<Longrightarrow> unpack_uint n (le_bytes n v) = Inr v"
  by (simp add: unpack_uint_def le_value_le_bytes)

lemma varbyte_bytes_small: "0 \<le> n \<Longrightarrow> n < 128 \<Longrightarrow> varbyte_bytes n = [char_of n]"
  by (subst varbyte_bytes.simps) simp

lemma encode_varbyte_small: "0 \<le> n \<Longrightarrow> n < 128 \<Longrightarrow> encode_varbyte n = Inr [char_of n]"
  by (simp add: encode_varbyte_eq varbyte_bytes_small)

lemmas tokenizer_simps = identity_tokenizer_def tokenize_def identity_child_def lower_def
  strip_def is_space_def

lemma tok0: "identity_tokenizer ''the quick brown fox'' = [''the'', ''quick'', ''brown'', ''fox'']"
  by (simp add: tokenizer_simps)

lemma tok1: "identity_tokenizer ''the lazy brown dog'' = [''the'', ''lazy'', ''brown'', ''dog'']"
  by (simp add: tokenizer_simps)

lemma tok2: "identity_tokenizer ''quick fox quick fox'' = [''quick'', ''fox'', ''quick'', ''fox'']"
  by (simp add: tokenizer_simps)

lemma tok3: "identity_tokenizer ''brown bear sleeps'' = [''brown'', ''bear'', ''sleeps'']"
  by (simp add: tokenizer_simps)

lemma index_documents_step:
  "index_documents tok bs (doc # cursor) infos idx n blocks =
     (if (n + 1) mod bs = 0
      then index_documents tok bs cursor (infos @ [(doc_url doc, doc_title doc)]) [] (n + 1)
             (blocks @ [save_temp_block (index_tokens idx (int n) 0 (tok (parsed_text doc)))])
      else index_documents tok bs cursor (infos @ [(doc_url doc, doc_title doc)])
             (index_tokens idx (int n) 0 (tok (parsed_text doc))) (n + 1) blocks)"
  by (simp add: Let_def)

lemma scenario_index:
  "index_documents identity_tokenizer BLOCK_SIZE corpus [] [] 0 [] =
     ([(''u0'', ''t0''), (''u1'', ''t1''), (''u2'', ''t2''), (''u3'', ''t3'')],
      [(''the'', [(0, [0]), (1, [0])]), (''quick'', [(0, [1]), (2, [0, 2])]),
       (''brown'', [(0, [2]), (1, [2]), (3, [0])]),
       (''fox'', [(0, [3]), (2, [1, 3])]), (''lazy'', [(1, [1])]),
       (''dog'', [(1, [3])]), (''bear'', [(3, [1])]), (''sleeps'', [(3, [2])])],
      [])"
  by (simp add: corpus_def BLOCK_SIZE_def tok0 tok1 tok2 tok3 add_position_def lookup_def Let_def
      index_documents_step del: index_documents.simps(2))

lemma scenario_block:
  "save_temp_block
      [(''the'', [(0, [0]), (1, [0])]), (''quick'', [(0, [1]), (2, [0, 2])]),
       (''brown'', [(0, [2]), (1, [2]), (3, [0])]),
       (''fox'', [(0, [3]), (2, [1, 3])]), (''lazy'', [(1, [1])]),
       (''dog'', [(1, [3])]), (''bear'', [(3, [1])]), (''sleeps'', [(3, [2])])]
   = [(''bear'', [(3, [1])]), (''brown'', [(0, [2]), (1, [2]), (3, [0])]), (''dog'', [(1, [3])]),
      (''fox'', [(0, [3]), (2, [1, 3])]), (''lazy'', [(1, [1])]), (''quick'', [(0, [1]), (2, [0, 2])]),
      (''sleeps'', [(3, [2])]), (''the'', [(0, [0]), (1, [0])])]"
  by (simp add: save_temp_block_def lookup_def)

lemma scenario_stream:
  "merged_stream
     [[(''bear'', [(3, [1])]), (''brown'', [(0, [2]), (1, [2]), (3, [0])]), (''dog'', [(1, [3])]),
      (''fox'', [(0, [3]), (2, [1, 3])]), (''lazy'', [(1, [1])]), (''quick'', [(0, [1]), (2, [0, 2])]),
      (''sleeps'', [(3, [2])]), (''the'', [(0, [0]), (1, [0])])]]
   = [(''bear'', [(3, [1])]), (''brown'', [(0, [2]), (1, [2]), (3, [0])]), (''dog'', [(1, [3])]),
      (''fox'', [(0, [3]), (2, [1, 3])]), (''lazy'', [(1, [1])]), (''quick'', [(0, [1]), (2, [0, 2])]),
      (''sleeps'', [(3, [2])]), (''the'', [(0, [0]), (1, [0])])]"
  by (simp add: merged_stream.simps)

lemma small_Suc:
  "Suc (Suc 0) = 2" "Suc (Suc (Suc 0)) = 3" "Suc (Suc (Suc (Suc 0))) = 4"
  "Suc (Suc (Suc (Suc (Suc 0)))) = 5" "Suc (Suc (Suc (Suc (Suc (Suc 0))))) = 6"
  "Suc (Suc (Suc (Suc (Suc (Suc (Suc (Suc 0))))))) = 8"
  by simp_all

lemma scenario_docs_file:
  "write_docs_index [(''u0'', ''t0''), (''u1'', ''t1''), (''u2'', ''t2''), (''u3'', ''t3'')]
     = Inr scenario_docs"
  apply (simp add: write_docs_index_def pack_uint_ok VERSION_def scenario_docs_def)
  apply (simp add: small_Suc)
  done

lemma scenario_build: "build_index identity_tokenizer corpus = Inr (scenario_docs, scenario_dict, scenario_postings)"
  apply (simp add: build_index_def scenario_index scenario_block scenario_docs_file)
  apply (simp add: merge_blocks_def scenario_stream VERSION_def pack_uint_ok)
  apply (simp add: write_term_entry_def lookup_def encode_varbyte_small pack_uint_ok)
  apply (simp add: scenario_dict_def scenario_postings_def)
  apply (simp add: small_Suc)
  done

lemma take_le_bytes [simp]: "take n (le_bytes n v @ rest) = le_bytes n v"
  by simp

lemma drop_le_bytes [simp]: "drop n (le_bytes n v @ rest) = rest"
  by simp

lemma read_offsets_numeral:
  "read_offsets f pos (numeral n) =
     (case file_read f pos 8 of (b, pos') \<Rightarrow>
        (case unpack_uint 8 b of
           Inl e \<Rightarrow> Inl e
         | Inr off \<Rightarrow>
             (case read_offsets f pos' (pred_numeral n) of
                Inl e \<Rightarrow> Inl e | Inr offs \<Rightarrow> Inr (off # offs))))"
  by (simp only: numeral_eq_Suc read_offsets.simps)

lemma read_dict_entries_numeral:
  "read_dict_entries f pos (numeral n) tdict =
     (case file_read f pos 1 of (b1, p1) \<Rightarrow>
      case unpack_uint 1 b1 of Inl e \<Rightarrow> Inl e | Inr len \<Rightarrow>
      case file_read f p1 len of (b2, p2) \<Rightarrow>
      case utf8_decode b2 of Inl e \<Rightarrow> Inl e | Inr term \<Rightarrow>
      case file_read f p2 8 of (b3, p3) \<Rightarrow>
      case unpack_uint 8 b3 of Inl e \<Rightarrow> Inl e | Inr offset \<Rightarrow>
      case file_read f p3 4 of (b4, p4) \<Rightarrow>
      case unpack_uint 4 b4 of Inl e \<Rightarrow> Inl e | Inr doc_count \<Rightarrow>
      read_dict_entries f p4 (pred_numeral n) (AList.update term (offset, doc_count) tdict))"
  by (simp only: numeral_eq_Suc read_dict_entries.simps)

lemma unpack_uint_eval: "unpack_uint n bs = (if length bs = n then Inr (le_value bs) else Inl StructError)"
  by (simp add: unpack_uint_def)

lemmas file_simps = file_read_def unpack_uint_def le_value_le_bytes le_value_Cons utf8_decode_def in_range_def

lemma le_value_Nil: "le_value [] = 0"
  by (simp add: le_value_def)

lemma scenario_load_docs:
  "load_docs scenario_docs = Inr (doc_infos scenario_reader)"
  apply (simp add: load_docs_def scenario_docs_def file_simps le_value_Nil read_offsets_numeral)
  apply (simp add: scenario_reader_def)
  done

lemma scenario_load_dict:
  "load_dict scenario_dict = Inr (term_dict scenario_reader)"
  apply (simp add: load_dict_def scenario_dict_def file_simps le_value_Nil read_dict_entries_numeral)
  apply (simp add: scenario_reader_def)
  done

lemma read_positions_numeral:
  "read_positions file (numeral n) st curr_pos positions =
     (case refill 5 file st of (buffer, ptr, fpos) \<Rightarrow>
        (case decode_varbyte_stream buffer ptr of
           Inl e \<Rightarrow> Inl e
         | Inr (pos_delta, ptr') \<Rightarrow>
             read_positions file (pred_numeral n) (buffer, ptr', fpos) (curr_pos + pos_delta)
               (positions @ [curr_pos + pos_delta])))"
  by (simp only: numeral_eq_Suc read_positions.simps)

lemma read_docs_numeral:
  "read_docs file (numeral n) st curr_doc_id result =
     (case refill 10 file st of (buffer, ptr, fpos) \<Rightarrow>
        (case decode_varbyte_stream buffer ptr of
           Inl e \<Rightarrow> Inl e
         | Inr (doc_delta, ptr1) \<Rightarrow>
             (case decode_varbyte_stream buffer ptr1 of
                Inl e \<Rightarrow> Inl e
              | Inr (freq, ptr2) \<Rightarrow>
                  (case read_positions file (nat freq) (buffer, ptr2, fpos) 0 [] of
                     Inl e \<Rightarrow> Inl e
                   | Inr (st', positions) \<Rightarrow>
                       read_docs file (pred_numeral n) st' (curr_doc_id + doc_delta)
                         (AList.update (curr_doc_id + doc_delta) positions result)))))"
  by (simp only: numeral_eq_Suc read_docs.simps)

lemmas postings_simps = get_postings_def scenario_reader_def scenario_postings_def file_read_def
  buffer_size_def refill_def decode_varbyte_stream_def decode_varbyte_loop.simps
  read_docs_numeral read_positions_numeral

lemma post_brown: "get_postings scenario_reader ''brown'' = Inr [(0, [2]), (1, [2]), (3, [0])]"
  by (simp add: postings_simps)

lemma post_fox: "get_postings scenario_reader ''fox'' = Inr [(0, [3]), (2, [1, 3])]"
  by (simp add: postings_simps)

lemma post_quick: "get_postings scenario_reader ''quick'' = Inr [(0, [1]), (2, [0, 2])]"
  by (simp add: postings_simps)

lemma post_the: "get_postings scenario_reader ''the'' = Inr [(0, [0]), (1, [0])]"
  by (simp add: postings_simps)

lemma post_dog: "get_postings scenario_reader ''dog'' = Inr [(1, [3])]"
  by (simp add: postings_simps)

section \<open>The end-to-end scenario\<close>

lemma scenario_engine_eq: "scenario_engine = Inr (SearchEngine scenario_reader identity_tokenizer)"
proof -
  have "CompressedIndexReader scenario_docs scenario_dict scenario_postings = Inr scenario_reader"
    by (simp add: CompressedIndexReader_def scenario_load_docs scenario_load_dict)
       (simp add: scenario_reader_def)
  then show ?thesis
    by (simp add: scenario_engine_def scenario_build)
qed

lemma scenario_all_docs: "all_docs (SearchEngine scenario_reader identity_tokenizer) = {0, 1, 2, 3}"
  by (auto simp: SearchEngine_def scenario_reader_def)

lemma tok_brown: "identity_tokenizer ''brown'' = [''brown'']"
  by (simp add: tokenizer_simps)

lemma tok_fox: "identity_tokenizer ''fox'' = [''fox'']"
  by (simp add: tokenizer_simps)

lemma tok_quick_fox: "identity_tokenizer ''quick fox'' = [''quick'', ''fox'']"
  by (simp add: tokenizer_simps)

lemma tok_brown_dog: "identity_tokenizer ''brown dog'' = [''brown'', ''dog'']"
  by (simp add: tokenizer_simps)

lemma tok_the_fox: "identity_tokenizer ''the fox'' = [''the'', ''fox'']"
  by (simp add: tokenizer_simps)

lemma rpn1: \<open>to_rpn (tokenize_query ''brown && !fox'')
              = Inr [TERM_tok ''brown'', TERM_tok ''fox'', OP ''!'', OP ''&&'']\<close>
  by (simp add: lexer_simps parser_simps)

lemma rpn2: \<open>to_rpn (tokenize_query ''"quick fox"'') = Inr [PHRASE ''quick fox'']\<close>
  by (simp add: lexer_simps parser_simps)

lemma rpn3: \<open>to_rpn (tokenize_query ''"brown dog"'') = Inr [PHRASE ''brown dog'']\<close>
  by (simp add: lexer_simps parser_simps)

lemma rpn4: \<open>to_rpn (tokenize_query ''"the fox" / 3'') = Inr [PROXIMITY ''the fox'' 3]\<close>
  by (simp add: lexer_simps parser_simps)

lemmas search_simps = sequence_search_def check_sequence_def positions_of_def SearchEngine_def

lemma seq_quick_fox:
  "sequence_search (SearchEngine scenario_reader identity_tokenizer) [''quick'', ''fox''] 2 = Inr {2}"
  by (simp add: search_simps post_quick post_fox)

lemma seq_brown_dog:
  "sequence_search (SearchEngine scenario_reader identity_tokenizer) [''brown'', ''dog''] 2 = Inr {1}"
  by (simp add: search_simps post_brown post_dog)

lemma seq_the_fox:
  "sequence_search (SearchEngine scenario_reader identity_tokenizer) [''the'', ''fox''] 3 = Inr {0}"
  by (simp add: search_simps post_the post_fox)

lemma q1: \<open>scenario_execute ''brown && !fox'' = Inr {1, 3}\<close>
proof -
  have "rpn_loop (SearchEngine scenario_reader identity_tokenizer) []
          [TERM_tok ''brown'', TERM_tok ''fox'', OP ''!'', OP ''&&'']
        = Inr [{0, 1, 3} \<inter> ({0, 1, 2, 3} - {0, 2})]"
    using scenario_all_docs
    by (simp add: SearchEngine_def tok_brown tok_fox post_brown post_fox)
  moreover have "{0, 1, 3} \<inter> ({0, 1, 2, 3} - {0, 2}) = {1, 3 :: int}" by auto
  ultimately show ?thesis
    by (simp add: scenario_execute_def scenario_engine_eq execute_def evaluate_recursive_def rpn1
        solve_rpn_def)
qed

lemma q2: \<open>scenario_execute ''"quick fox"'' = Inr {2}\<close>
  using seq_quick_fox
  by (simp add: scenario_execute_def scenario_engine_eq execute_def evaluate_recursive_def rpn2
        solve_rpn_def SearchEngine_def tok_quick_fox)

lemma q3: \<open>scenario_execute ''"brown dog"'' = Inr {1}\<close>
  using seq_brown_dog
  by (simp add: scenario_execute_def scenario_engine_eq execute_def evaluate_recursive_def rpn3
        solve_rpn_def SearchEngine_def tok_brown_dog)

lemma q4: \<open>scenario_execute ''"the fox" / 3'' = Inr {0}\<close>
  using seq_the_fox
  by (simp add: scenario_execute_def scenario_engine_eq execute_def evaluate_recursive_def rpn4
        solve_rpn_def SearchEngine_def tok_the_fox)

text \<open>
  Claim C3 (end-to-end scenario), as amended.  The index is built from the four-document
  corpus with the identity tokenizer, opened, and queried: \<open>brown && !fox\<close> returns
  \<open>{1, 3}\<close>, the phrase \<open>"quick fox"\<close> returns \<open>{2}\<close>, the phrase \<open>"brown dog"\<close> returns \<open>{1}\<close>,
  and \<open>"the fox" / 3\<close> returns \<open>{0}\<close>.
\<close>

theorem scenario_queries:
  \<open>scenario_execute ''brown && !fox'' = Inr {1, 3}
   \<and> scenario_execute ''"quick fox"'' = Inr {2}
   \<and> scenario_execute ''"brown dog"'' = Inr {1}
   \<and> scenario_execute ''"the fox" / 3'' = Inr {0}\<close>
  using q1 q2 q3 q4 by simp

text \<open>
  The claim as stated fails for the phrase \<open>"quick fox"\<close>: in document 0 the words
  \<open>quick\<close> (position 1) and \<open>fox\<close> (position 3) are not adjacent, and a phrase of two
  terms is searched with exact adjacency, so document 0 is not returned.
\<close>

theorem scenario_quick_fox_counterexample:
  \<open>scenario_execute ''"quick fox"'' \<noteq> Inr {0, 2}\<close>
proof -
  have "{2} \<noteq> {0, 2 :: int}" by auto
  then show ?thesis using q2 by simp
qed

section \<open>The dictionary file of a build\<close>

lemma pop_min_None: "pop_min bs = None \<Longrightarrow> concat bs = []"
  by (induction bs rule: pop_min.induct) (auto split: option.splits if_splits)

lemma pop_min_set:
  "pop_min bs = Some (x, bs') \<Longrightarrow> set (concat bs) = insert x (set (concat bs'))"
proof (induction bs arbitrary: x bs' rule: pop_min.induct)
  case 1
  then show ?case by simp
next
  case (2 bs)
  then obtain bs0 where p: "pop_min bs = Some (x, bs0)" and b: "bs' = [] # bs0"
    by (auto split: option.splits)
  have "set (concat bs) = insert x (set (concat bs0))" by (rule "2.IH" [OF p])
  then show ?case using b by (simp del: set_concat)
next
  case (3 x0 xs bs)
  show ?case
  proof (cases "pop_min bs")
    case None
    then have "x = x0" "bs' = xs # bs" using "3.prems" by simp_all
    then show ?thesis by (simp del: set_concat)
  next
    case (Some p)
    obtain y bs0 where p: "p = (y, bs0)" by (cases p)
    have ih: "set (concat bs) = insert y (set (concat bs0))"
      using "3.IH" [of y bs0] Some p by simp
    show ?thesis
    proof (cases "fst x0 \<le> fst y")
      case True
      then have "x = x0" "bs' = xs # bs" using "3.prems" Some p by simp_all
      then show ?thesis by (simp del: set_concat)
    next
      case False
      then have "x = y" "bs' = (x0 # xs) # bs0" using "3.prems" Some p by simp_all
      then show ?thesis using ih by (simp del: set_concat add: insert_commute)
    qed
  qed
qed

lemma pop_min_sorted:
  "pop_min bs = Some (x, bs') \<Longrightarrow> \<forall>b \<in> set bs. sorted (map fst b) \<Longrightarrow>
   (\<forall>b \<in> set bs'. sorted (map fst b)) \<and> (\<forall>y \<in> set (concat bs'). fst x \<le> fst y)"
proof (induction bs arbitrary: x bs' rule: pop_min.induct)
  case 1
  then show ?case by simp
next
  case (2 bs)
  then obtain bs0 where p: "pop_min bs = Some (x, bs0)" and b: "bs' = [] # bs0"
    by (auto split: option.splits)
  have "(\<forall>b \<in> set bs0. sorted (map fst b)) \<and> (\<forall>y \<in> set (concat bs0). fst x \<le> fst y)"
    using "2.IH" [OF p] "2.prems" by simp
  then show ?case using b by (simp del: set_concat)
next
  case (3 x0 xs bs)
  show ?case
  proof (cases "pop_min bs")
    case None
    then have e: "concat bs = []" by (rule pop_min_None)
    have eq: "x = x0" "bs' = xs # bs" using "3.prems" None by simp_all
    have xs: "sorted (map fst (x0 # xs))" using "3.prems" by simp
    then have "\<forall>z \<in> set xs. fst x0 \<le> fst z" by auto
    moreover have e': "set (concat bs) = {}" by (simp only: e list.set)
    ultimately have "\<forall>z \<in> set (concat (xs # bs)). fst x0 \<le> fst z"
      by (simp del: set_concat add: e')
    moreover have "\<forall>b \<in> set (xs # bs). sorted (map fst b)"
      using xs "3.prems" by simp
    ultimately show ?thesis using eq by blast
  next
    case (Some p)
    obtain y bs0 where p: "p = (y, bs0)" by (cases p)
    have ih: "(\<forall>b \<in> set bs0. sorted (map fst b)) \<and> (\<forall>z \<in> set (concat bs0). fst y \<le> fst z)"
      using "3.IH" [of y bs0] "3.prems" Some p by simp
    have xs: "sorted (map fst (x0 # xs))" using "3.prems" by simp
    show ?thesis
    proof (cases "fst x0 \<le> fst y")
      case True
      have eq: "x = x0" "bs' = xs # bs" using "3.prems" Some p True by simp_all
      have pm: "pop_min bs = Some (y, bs0)" using Some p by simp
      have "set (concat bs) = insert y (set (concat bs0))"
        by (rule pop_min_set [OF pm])
      then have "\<forall>z \<in> set (concat bs). fst x0 \<le> fst z"
        using ih True by (auto simp del: set_concat)
      moreover have "\<forall>z \<in> set xs. fst x0 \<le> fst z" using xs by auto
      ultimately have "\<forall>z \<in> set (concat (xs # bs)). fst x0 \<le> fst z"
        by (auto simp del: set_concat)
      moreover have "\<forall>b \<in> set (xs # bs). sorted (map fst b)"
        using xs "3.prems" by simp
      ultimately show ?thesis using eq by blast
    next
      case False
      have eq: "x = y" "bs' = (x0 # xs) # bs0" using "3.prems" Some p False by simp_all
      have "fst y \<le> fst x0" using False by simp
      moreover have "\<forall>z \<in> set xs. fst x0 \<le> fst z" using xs by auto
      ultimately have "\<forall>z \<in> set (concat ((x0 # xs) # bs0)). fst y \<le> fst z"
        using ih by (auto simp del: set_concat)
      moreover have "\<forall>b \<in> set ((x0 # xs) # bs0). sorted (map fst b)"
        using xs ih by simp
      ultimately show ?thesis using eq by blast
    qed
  qed
qed

lemma merged_stream_set: "set (merged_stream bs) = set (concat bs)"
proof (induction bs rule: merged_stream.induct)
  case (1 bs)
  show ?case
  proof (cases "pop_min bs")
    case None
    then show ?thesis using pop_min_None [OF None] by (subst merged_stream.simps) simp
  next
    case (Some p)
    obtain x bs' where p: "p = (x, bs')" by (cases p)
    have "set (merged_stream bs') = set (concat bs')"
      using "1.IH" Some p by simp
    then show ?thesis
      using Some p pop_min_set [of bs x bs'] by (subst merged_stream.simps) simp
  qed
qed

lemma merged_stream_sorted:
  "\<forall>b \<in> set bs. sorted (map fst b) \<Longrightarrow> sorted (map fst (merged_stream bs))"
proof (induction bs rule: merged_stream.induct)
  case (1 bs)
  show ?case
  proof (cases "pop_min bs")
    case None
    then show ?thesis by (subst merged_stream.simps) simp
  next
    case (Some p)
    obtain x bs' where p: "p = (x, bs')" by (cases p)
    have s: "(\<forall>b \<in> set bs'. sorted (map fst b)) \<and> (\<forall>y \<in> set (concat bs'). fst x \<le> fst y)"
      using pop_min_sorted [of bs x bs'] Some p "1.prems" by simp
    then have "sorted (map fst (merged_stream bs'))"
      using "1.IH" Some p by simp
    moreover have "\<forall>y \<in> set (merged_stream bs'). fst x \<le> fst y"
      using s by (simp add: merged_stream_set)
    ultimately show ?thesis
      using Some p by (subst merged_stream.simps) auto
  qed
qed

lemma write_term_entry_dict:
  assumes "write_term_entry term dm (fd, fp) = Inr (fd', fp')"
  shows "\<exists>e. is_entry e term \<and> fd' = fd @ e"
proof -
  from assms obtain b0 bs l off cnt where
    l: "pack_uint 1 (length (take 255 term)) = Inr l"
    and off: "pack_uint 8 (length fp) = Inr off"
    and cnt: "pack_uint 4 (length (sort (map fst dm))) = Inr cnt"
    and fd': "fd' = fd @ l @ take 255 term @ off @ cnt"
    by (auto simp: write_term_entry_def Let_def split: sum.splits)
  have "l = [char_of (length (take 255 term))]"
    using l by (auto simp: pack_uint_def split: if_splits)
  moreover have "length (off @ cnt) = 12"
    using off cnt by (auto simp: pack_uint_def split: if_splits)
  ultimately have "is_entry (l @ take 255 term @ off @ cnt) term"
    unfolding is_entry_def by (intro exI [of _ "off @ cnt"]) simp
  then show ?thesis using fd' by blast
qed

lemma write_term_entry_fst:
  assumes "write_term_entry t dm files = Inr files'"
  shows "\<exists>e. is_entry e t \<and> fst files' = fst files @ e"
  using write_term_entry_dict [of t dm "fst files" "snd files" "fst files'" "snd files'"] assms
  by simp

lemma merge_loop_dict:
  "merge_loop stream cur files n = Inr (cur', files', n') \<Longrightarrow>
   \<exists>es W. fst files' = fst files @ concat es \<and> list_all2 is_entry es W \<and> n' = n + length es \<and>
          W @ current_list cur' = remdups_adj (current_list cur @ map fst stream)"
proof (induction stream cur files n rule: merge_loop.induct)
  case (1 current files term_count)
  then have "cur' = current" "files' = files" "n' = term_count" by simp_all
  then show ?case
    by (intro exI [of _ "[]"]) (cases current; auto)
next
  case (2 t dm stream files term_count)
  then show ?case by simp
next
  case (3 t dm stream current_term current_docs files term_count)
  show ?case
  proof (cases "t \<noteq> current_term")
    case True
    then obtain files1 where
      w: "write_term_entry current_term current_docs files = Inr files1"
      and m: "merge_loop stream (Some (t, dm)) files1 (term_count + 1) = Inr (cur', files', n')"
      using "3.prems" by (auto split: sum.splits)
    obtain e where e: "is_entry e current_term" "fst files1 = fst files @ e"
      using write_term_entry_fst [OF w] by blast
    obtain es W where
      ih: "fst files' = fst files1 @ concat es" "list_all2 is_entry es W"
          "n' = term_count + 1 + length es"
          "W @ current_list cur' = remdups_adj (current_list (Some (t, dm)) @ map fst stream)"
      using "3.IH"(1) [OF True w m] by blast
    have "fst files' = fst files @ concat (e # es)" using ih e by simp
    moreover have "list_all2 is_entry (e # es) (current_term # W)" using ih e by simp
    moreover have "n' = term_count + length (e # es)" using ih by simp
    moreover have "(current_term # W) @ current_list cur'
        = remdups_adj (current_list (Some (current_term, current_docs)) @ map fst ((t, dm) # stream))"
      using ih True by auto
    ultimately show ?thesis by blast
  next
    case False
    then have m: "merge_loop stream (Some (current_term, dict_update current_docs dm)) files term_count
         = Inr (cur', files', n')"
      using "3.prems" by simp
    obtain es W where
      ih: "fst files' = fst files @ concat es" "list_all2 is_entry es W" "n' = term_count + length es"
          "W @ current_list cur'
             = remdups_adj (current_list (Some (current_term, dict_update current_docs dm)) @ map fst stream)"
      using "3.IH"(2) [OF False m] by blast
    have "W @ current_list cur'
        = remdups_adj (current_list (Some (current_term, current_docs)) @ map fst ((t, dm) # stream))"
      using ih False by simp
    then show ?thesis using ih by blast
  qed
qed

lemma merge_blocks_dict:
  assumes "merge_blocks blocks = Inr (f_dict, f_post)"
  shows "\<exists>es. f_dict = ''DICT'' @ le_bytes 2 3 @ le_bytes 4 (length es) @ concat es \<and>
              length es < 256 ^ 4 \<and>
              list_all2 is_entry es (remdups_adj (map fst (merged_stream blocks)))"
proof -
  let ?hd = "''DICT'' @ le_bytes 2 3 @ le_bytes 4 0"
  let ?files = "(?hd, ''POST'' @ le_bytes 2 3)"
  have v: "pack_uint 2 VERSION = Inr (le_bytes 2 3)" "pack_uint 4 0 = Inr (le_bytes 4 0)"
    by (simp_all add: pack_uint_def VERSION_def)
  from assms obtain cur files n where
    m: "merge_loop (merged_stream blocks) None ?files 0 = Inr (cur, files, n)"
    by (auto simp: merge_blocks_def v split: sum.splits)
  obtain es W where
    es: "fst files = ?hd @ concat es" "list_all2 is_entry es W" "n = length es"
        "W @ current_list cur = remdups_adj (map fst (merged_stream blocks))"
    using merge_loop_dict [OF m] by auto
  have mb: "merge_blocks blocks =
      (case (case cur of
               None \<Rightarrow> Inr (files, n)
             | Some (current_term, current_docs) \<Rightarrow>
                 (case write_term_entry current_term current_docs files of
                    Inl e \<Rightarrow> Inl e
                  | Inr files' \<Rightarrow> Inr (files', n + 1))) of
         Inl e \<Rightarrow> Inl e
       | Inr ((fd, fp), n') \<Rightarrow>
           (case pack_uint 4 n' of
              Inl e \<Rightarrow> Inl e
            | Inr cnt \<Rightarrow> Inr (take 6 fd @ cnt @ drop 10 fd, fp)))"
    using m by (simp add: merge_blocks_def v)
  have fin: "\<And>fd fp k. (case pack_uint 4 k of Inl e \<Rightarrow> Inl e
                 | Inr cnt \<Rightarrow> Inr (take 6 fd @ cnt @ drop 10 fd, fp)) = Inr (f_dict, f_post)
             \<Longrightarrow> k < 256 ^ 4 \<and> f_dict = take 6 fd @ le_bytes 4 k @ drop 10 fd"
    by (auto simp: pack_uint_def split: if_splits)
  have "\<exists>es'. list_all2 is_entry es' (remdups_adj (map fst (merged_stream blocks))) \<and>
           length es' < 256 ^ 4 \<and>
           f_dict = take 6 (?hd @ concat es') @ le_bytes 4 (length es') @ drop 10 (?hd @ concat es')"
  proof (cases cur)
    case None
    then have W: "W = remdups_adj (map fst (merged_stream blocks))" using es by simp
    obtain fd0 fp0 where fl: "files = (fd0, fp0)" by (cases files)
    have "(case pack_uint 4 n of Inl e \<Rightarrow> Inl e
            | Inr cnt \<Rightarrow> Inr (take 6 fd0 @ cnt @ drop 10 fd0, fp0))
          = Inr (f_dict, f_post)"
      using assms by (simp add: mb None fl)
    then have "n < 256 ^ 4 \<and> f_dict = take 6 fd0 @ le_bytes 4 n @ drop 10 fd0"
      by (rule fin)
    then have "n < 256 ^ 4 \<and> f_dict = take 6 (fst files) @ le_bytes 4 n @ drop 10 (fst files)"
      by (simp add: fl)
    then show ?thesis using es W by auto
  next
    case (Some p)
    obtain c docs where p: "p = (c, docs)" by (cases p)
    obtain files1 where w: "write_term_entry c docs files = Inr files1"
      using assms by (cases "write_term_entry c docs files") (simp_all add: mb Some p)
    obtain fd1 fp1 where fl: "files1 = (fd1, fp1)" by (cases files1)
    have "(case pack_uint 4 (n + 1) of Inl e \<Rightarrow> Inl e
            | Inr cnt \<Rightarrow> Inr (take 6 fd1 @ cnt @ drop 10 fd1, fp1))
          = Inr (f_dict, f_post)"
      using assms by (simp add: mb Some p w fl)
    then have "n + 1 < 256 ^ 4 \<and> f_dict = take 6 fd1 @ le_bytes 4 (n + 1) @ drop 10 fd1"
      by (rule fin)
    then have f: "n + 1 < 256 ^ 4 \<and>
                  f_dict = take 6 (fst files1) @ le_bytes 4 (n + 1) @ drop 10 (fst files1)"
      by (simp add: fl)
    obtain e where e: "is_entry e c" "fst files1 = fst files @ e"
      using write_term_entry_fst [OF w] by blast
    have "list_all2 is_entry (es @ [e]) (W @ [c])"
      using es e by (simp add: list_all2_appendI)
    moreover have "W @ [c] = remdups_adj (map fst (merged_stream blocks))"
      using es Some p by simp
    moreover have "fst files1 = ?hd @ concat (es @ [e])" using es e by simp
    moreover have "length (es @ [e]) = n + 1" using es by simp
    ultimately show ?thesis using f by metis
  qed
  then obtain es' where
    a: "list_all2 is_entry es' (remdups_adj (map fst (merged_stream blocks)))"
       "length es' < 256 ^ 4"
       "f_dict = take 6 (?hd @ concat es') @ le_bytes 4 (length es') @ drop 10 (?hd @ concat es')"
    by auto
  have "take 6 (?hd @ concat es') = ''DICT'' @ le_bytes 2 3" by simp
  moreover have "drop 10 (?hd @ concat es') = concat es'" by simp
  ultimately show ?thesis using a by auto
qed

lemma parse_terms_entries:
  "list_all2 is_entry es ts \<Longrightarrow> parse_terms (length es) (concat es) = map (take 255) ts"
proof (induction rule: list_all2_induct)
  case Nil
  then show ?case by simp
next
  case (Cons e es t ts)
  define tb where "tb = take 255 t"
  from Cons.hyps(1) obtain tail where
    tail: "length tail = 12" and e: "e = char_of (length tb) # tb @ tail"
    unfolding is_entry_def tb_def by blast
  have "length tb < 256" by (simp add: tb_def)
  then have len: "(of_char (char_of (length tb)) :: nat) = length tb"
    by simp
  have "parse_terms (Suc (length es)) (e @ concat es)
      = tb # parse_terms (length es) (concat es)"
    unfolding e using tail by (simp add: len del: of_char_of)
  then show ?case using Cons.IH by (simp add: tb_def)
qed

lemma le_value_le_bytes4: "n < 256 ^ 4 \<Longrightarrow> le_value (le_bytes 4 n) = n"
  by (rule le_value_le_bytes)

lemma dict_terms_file:
  assumes "list_all2 is_entry es ts" and "length es < 256 ^ 4"
  shows "dict_terms (''DICT'' @ le_bytes 2 3 @ le_bytes 4 (length es) @ concat es) = map (take 255) ts"
proof -
  have "take 4 (drop 6 (''DICT'' @ le_bytes 2 3 @ le_bytes 4 (length es) @ concat es))
      = le_bytes 4 (length es)"
    by simp
  moreover have "drop 10 (''DICT'' @ le_bytes 2 3 @ le_bytes 4 (length es) @ concat es) = concat es"
    by simp
  ultimately show ?thesis
    using assms by (simp only: dict_terms_def le_value_le_bytes4 parse_terms_entries)
qed

lemma take_le_mono: "(xs :: 'a :: linorder list) \<le> ys \<Longrightarrow> take n xs \<le> take n ys"
proof (induction n arbitrary: xs ys)
  case 0
  then show ?case by simp
next
  case (Suc n)
  show ?case
  proof (cases xs)
    case Nil
    then show ?thesis by simp
  next
    case xs: (Cons a as)
    show ?thesis
    proof (cases ys)
      case Nil
      then show ?thesis using Suc.prems xs by simp
    next
      case (Cons b bs)
      then show ?thesis using Suc.prems xs Suc.IH [of as bs] by auto
    qed
  qed
qed

lemma sorted_map_take: "sorted (ts :: 'a :: linorder list list) \<Longrightarrow> sorted (map (take n) ts)"
  by (induction ts) (auto intro: take_le_mono)

lemma distinct_remdups_adj_sorted:
  "sorted (xs :: 'a :: linorder list) \<Longrightarrow> distinct (remdups_adj xs)"
proof (induction xs rule: remdups_adj.induct)
  case 1
  then show ?case by simp
next
  case (2 x)
  then show ?case by simp
next
  case (3 x y xs)
  show ?case
  proof (cases "x = y")
    case True
    then show ?thesis using 3 by simp
  next
    case False
    have d: "distinct (remdups_adj (y # xs))" using 3 False by simp
    have "\<forall>z \<in> set (y # xs). x < z"
    proof
      fix z assume z: "z \<in> set (y # xs)"
      have "x \<le> y" "y \<le> z" using "3.prems" z by auto
      then show "x < z" using False by simp
    qed
    then have "x \<notin> set (remdups_adj (y # xs))" by auto
    then show ?thesis using d False by simp
  qed
qed

lemma sorted_list_of_set_remdups_adj:
  "sorted (xs :: 'a :: linorder list) \<Longrightarrow> remdups_adj xs = sorted_list_of_set (set xs)"
proof -
  assume s: "sorted xs"
  show ?thesis
  proof (rule sorted_distinct_set_unique)
    show "sorted (remdups_adj xs)" using s by simp
    show "distinct (remdups_adj xs)" using s by (rule distinct_remdups_adj_sorted)
    show "sorted (sorted_list_of_set (set xs))" by simp
    show "distinct (sorted_list_of_set (set xs))" by simp
    show "set (remdups_adj xs) = set (sorted_list_of_set (set xs))" by simp
  qed
qed

lemma add_position_keys: "fst ` set (add_position idx t d p) = insert t (fst ` set idx)"
  by (simp add: add_position_def Let_def dom_update)

lemma index_tokens_keys:
  "fst ` set (index_tokens idx d p toks) = fst ` set idx \<union> set toks"
  by (induction toks arbitrary: idx p) (auto simp: add_position_keys)

lemma save_temp_block_keys: "map fst (save_temp_block idx) = sort (map fst idx)"
  by (simp add: save_temp_block_def comp_def)

lemma save_temp_block_sorted: "sorted (map fst (save_temp_block idx))"
  by (simp add: save_temp_block_keys)

lemma save_temp_block_set: "fst ` set (save_temp_block idx) = fst ` set idx"
proof -
  have "set (map fst (save_temp_block idx)) = set (map fst idx)"
    by (simp add: save_temp_block_keys)
  then show ?thesis by simp
qed

lemma block_keys_snoc: "block_keys (blocks @ [b]) = block_keys blocks \<union> fst ` set b"
  by (auto simp: block_keys_def)

lemma index_documents_keys:
  "index_documents tok bsz cursor infos idx n blocks = (infos', idx', blocks') \<Longrightarrow>
   fst ` set idx' \<union> block_keys blocks' = fst ` set idx \<union> block_keys blocks \<union> corpus_terms tok cursor"
proof (induction cursor arbitrary: infos idx n blocks)
  case Nil
  then show ?case by (simp add: corpus_terms_def)
next
  case (Cons doc cursor)
  let ?idx = "index_tokens idx (int n) 0 (tok (parsed_text doc))"
  have k: "fst ` set ?idx = fst ` set idx \<union> set (tok (parsed_text doc))"
    by (rule index_tokens_keys)
  have c: "corpus_terms tok (doc # cursor) = set (tok (parsed_text doc)) \<union> corpus_terms tok cursor"
    by (simp add: corpus_terms_def)
  show ?case
  proof (cases "(n + 1) mod bsz = 0")
    case True
    then have "index_documents tok bsz cursor (infos @ [(doc_url doc, doc_title doc)]) [] (n + 1)
                 (blocks @ [save_temp_block ?idx]) = (infos', idx', blocks')"
      using Cons.prems by (simp add: index_documents_step del: index_documents.simps(2))
    then have "fst ` set idx' \<union> block_keys blocks'
        = fst ` set ([] :: inverted_index) \<union> block_keys (blocks @ [save_temp_block ?idx])
          \<union> corpus_terms tok cursor"
      by (rule Cons.IH)
    then show ?thesis
      by (simp add: block_keys_snoc save_temp_block_set k c Un_ac)
  next
    case False
    then have "index_documents tok bsz cursor (infos @ [(doc_url doc, doc_title doc)]) ?idx (n + 1)
                 blocks = (infos', idx', blocks')"
      using Cons.prems by (simp add: index_documents_step del: index_documents.simps(2))
    then have "fst ` set idx' \<union> block_keys blocks'
        = fst ` set ?idx \<union> block_keys blocks \<union> corpus_terms tok cursor"
      by (rule Cons.IH)
    then show ?thesis
      by (simp add: k c Un_ac)
  qed
qed

lemma index_documents_sorted:
  "index_documents tok bsz cursor infos idx n blocks = (infos', idx', blocks') \<Longrightarrow>
   \<forall>b \<in> set blocks. sorted (map fst b) \<Longrightarrow> \<forall>b \<in> set blocks'. sorted (map fst b)"
proof (induction cursor arbitrary: infos idx n blocks)
  case Nil
  then show ?case by simp
next
  case (Cons doc cursor)
  let ?idx = "index_tokens idx (int n) 0 (tok (parsed_text doc))"
  show ?case
  proof (cases "(n + 1) mod bsz = 0")
    case True
    then have "index_documents tok bsz cursor (infos @ [(doc_url doc, doc_title doc)]) [] (n + 1)
                 (blocks @ [save_temp_block ?idx]) = (infos', idx', blocks')"
      using Cons.prems by (simp add: index_documents_step del: index_documents.simps(2))
    moreover have "\<forall>b \<in> set (blocks @ [save_temp_block ?idx]). sorted (map fst b)"
      using Cons.prems(2) by (auto simp: save_temp_block_sorted)
    ultimately show ?thesis by (rule Cons.IH)
  next
    case False
    then have "index_documents tok bsz cursor (infos @ [(doc_url doc, doc_title doc)]) ?idx (n + 1)
                 blocks = (infos', idx', blocks')"
      using Cons.prems by (simp add: index_documents_step del: index_documents.simps(2))
    then show ?thesis using Cons.prems(2) by (rule Cons.IH)
  qed
qed

lemma block_keys_concat: "fst ` set (concat blocks) = block_keys blocks"
  by (auto simp: block_keys_def)

lemma build_index_dict_terms:
  assumes "build_index tok cursor = Inr (index_docs, index_dict, index_postings)"
  shows "dict_terms index_dict = map (take 255) (sorted_list_of_set (corpus_terms tok cursor))"
proof -
  obtain infos idx blocks where
    i: "index_documents tok BLOCK_SIZE cursor [] [] 0 [] = (infos, idx, blocks)"
    by (cases "index_documents tok BLOCK_SIZE cursor [] [] 0 []") auto
  define blocks2 where
    "blocks2 = (if idx \<noteq> [] then blocks @ [save_temp_block idx] else blocks)"
  have m: "merge_blocks blocks2 = Inr (index_dict, index_postings)"
    using assms i
    by (auto simp: build_index_def Let_def blocks2_def split: sum.splits prod.splits)
  have "fst ` set idx \<union> block_keys blocks
      = fst ` set ([] :: inverted_index) \<union> block_keys [] \<union> corpus_terms tok cursor"
    by (rule index_documents_keys [OF i])
  then have k: "fst ` set idx \<union> block_keys blocks = corpus_terms tok cursor"
    by (simp add: block_keys_def)
  have k2: "block_keys blocks2 = corpus_terms tok cursor"
  proof (cases "idx \<noteq> []")
    case True
    then show ?thesis
      using k by (simp add: blocks2_def block_keys_snoc save_temp_block_set Un_commute)
  next
    case False
    then show ?thesis using k by (simp add: blocks2_def)
  qed
  have "\<forall>b \<in> set blocks. sorted (map fst b)"
    by (rule index_documents_sorted [OF i]) simp
  then have s2: "\<forall>b \<in> set blocks2. sorted (map fst b)"
    by (simp add: blocks2_def save_temp_block_sorted)
  have ss: "sorted (map fst (merged_stream blocks2))"
    by (rule merged_stream_sorted [OF s2])
  have "set (map fst (merged_stream blocks2)) = fst ` set (concat blocks2)"
    by (simp only: set_map merged_stream_set)
  then have st: "set (map fst (merged_stream blocks2)) = corpus_terms tok cursor"
    by (simp only: block_keys_concat k2)
  have T: "remdups_adj (map fst (merged_stream blocks2))
         = sorted_list_of_set (corpus_terms tok cursor)"
    using sorted_list_of_set_remdups_adj [OF ss] by (simp only: st)
  obtain es where
    es: "index_dict = ''DICT'' @ le_bytes 2 3 @ le_bytes 4 (length es) @ concat es"
        "length es < 256 ^ 4"
        "list_all2 is_entry es (remdups_adj (map fst (merged_stream blocks2)))"
    using merge_blocks_dict [OF m] by blast
  show ?thesis
    using dict_terms_file [OF es(3) es(2)] by (simp only: es(1) T)
qed

text \<open>
  Claim C6 (dictionary order and uniqueness), as amended. For every build that
  succeeds, over any tokenizer and any document stream, the serialized term byte
  strings of the entries of \<open>index.dict\<close>, in file order, are the first 255 bytes
  of the distinct terms of the collection taken in ascending bytewise order: one
  entry per distinct term, and the entries ascend. When no term is longer than 255
  bytes the entries are the terms themselves and ascend strictly.
\<close>

theorem dictionary_order:
  assumes "build_index tok cursor = Inr (index_docs, index_dict, index_postings)"
  shows "dict_terms index_dict = map (take 255) (sorted_list_of_set (corpus_terms tok cursor))
       \<and> sorted (dict_terms index_dict)
       \<and> ((\<forall>t \<in> corpus_terms tok cursor. length t \<le> 255) \<longrightarrow>
            dict_terms index_dict = sorted_list_of_set (corpus_terms tok cursor) \<and>
            sorted_wrt (<) (dict_terms index_dict))"
proof -
  have fin: "finite (corpus_terms tok cursor)"
    by (simp add: corpus_terms_def)
  have d: "dict_terms index_dict = map (take 255) (sorted_list_of_set (corpus_terms tok cursor))"
    by (rule build_index_dict_terms [OF assms])
  have s: "sorted (dict_terms index_dict)"
    unfolding d by (rule sorted_map_take) simp
  have "dict_terms index_dict = sorted_list_of_set (corpus_terms tok cursor) \<and>
        sorted_wrt (<) (dict_terms index_dict)"
    if short: "\<forall>t \<in> corpus_terms tok cursor. length t \<le> 255"
  proof -
    have "map (take 255) (sorted_list_of_set (corpus_terms tok cursor))
        = sorted_list_of_set (corpus_terms tok cursor)"
      using short fin by (intro map_idI) simp
    then have e: "dict_terms index_dict = sorted_list_of_set (corpus_terms tok cursor)"
      using d by simp
    then show ?thesis by (simp add: strict_sorted_iff)
  qed
  then show ?thesis using d s by blast
qed

lemma append_le_append: "((xs :: 'a :: linorder list) @ ys \<le> xs @ zs) = (ys \<le> zs)"
  by (induction xs) simp_all

lemma long_facts:
  "long_a \<noteq> long_b" "long_b \<noteq> long_a" "long_a \<le> long_b" "\<not> long_b \<le> long_a"
  "take 255 long_a = replicate 255 (CHR ''a'')" "take 255 long_b = replicate 255 (CHR ''a'')"
  "length long_a = 256" "length long_b = 256"
  by (simp_all add: long_a_def long_b_def append_le_append)

lemma long_index:
  "index_documents long_tokenizer BLOCK_SIZE long_corpus [] [] 0 []
     = ([(''u0'', ''t0'')], [(long_a, [(0, [0])]), (long_b, [(0, [1])])], [])"
  by (simp add: long_corpus_def long_tokenizer_def BLOCK_SIZE_def add_position_def lookup_def Let_def
      long_facts index_documents_step del: index_documents.simps(2))

lemma long_block:
  "save_temp_block [(long_a, [(0, [0])]), (long_b, [(0, [1])])]
     = [(long_a, [(0, [0])]), (long_b, [(0, [1])])]"
  by (simp add: save_temp_block_def lookup_def long_facts)

lemma long_stream:
  "merged_stream [[(long_a, [(0, [0])]), (long_b, [(0, [1 :: int])])]]
     = [(long_a, [(0, [0])]), (long_b, [(0, [1])])]"
  by (simp add: merged_stream.simps)

lemma long_build: "\<exists>d t p. build_index long_tokenizer long_corpus = Inr (d, t, p)"
  apply (simp add: build_index_def long_index write_docs_index_def pack_uint_ok VERSION_def)
  apply (simp add: long_block merge_blocks_def long_stream VERSION_def pack_uint_ok long_facts)
  apply (simp add: write_term_entry_def lookup_def encode_varbyte_small pack_uint_ok long_facts)
  done

lemma long_terms: "sorted_list_of_set (corpus_terms long_tokenizer long_corpus) = [long_a, long_b]"
proof -
  have "corpus_terms long_tokenizer long_corpus = {long_a, long_b}"
    by (simp add: corpus_terms_def long_corpus_def long_tokenizer_def)
  moreover have "sorted_list_of_set {long_a, long_b} = [long_a, long_b]"
    by (rule sorted_distinct_set_unique) (simp_all add: long_facts)
  ultimately show ?thesis by simp
qed

lemma long_dict_terms:
  "built_dict_terms long_tokenizer long_corpus
     = Inr [replicate 255 (CHR ''a''), replicate 255 (CHR ''a'')]"
proof -
  obtain d t p where b: "build_index long_tokenizer long_corpus = Inr (d, t, p)"
    using long_build by blast
  have "dict_terms t = map (take 255) [long_a, long_b]"
    using build_index_dict_terms [OF b] by (simp only: long_terms)
  then show ?thesis
    by (simp add: built_dict_terms_def b long_facts)
qed

lemma scenario_terms:
  "corpus_terms identity_tokenizer corpus
     = {''the'', ''quick'', ''brown'', ''fox'', ''lazy'', ''dog'', ''bear'', ''sleeps''}"
  by (auto simp: corpus_terms_def corpus_def tok0 tok1 tok2 tok3)

theorem dictionary_order_witness:
  "build_index identity_tokenizer corpus = Inr (scenario_docs, scenario_dict, scenario_postings)
   \<and> list_all (\<lambda>t. length t \<le> 255) (dict_terms scenario_dict)
   \<and> dict_terms scenario_dict = sorted_list_of_set (corpus_terms identity_tokenizer corpus)
   \<and> sorted_wrt (<) (dict_terms scenario_dict)"
proof -
  have "\<forall>t \<in> corpus_terms identity_tokenizer corpus. length t \<le> 255"
    by (simp add: scenario_terms)
  with dictionary_order [OF scenario_build]
  have d: "dict_terms scenario_dict = sorted_list_of_set (corpus_terms identity_tokenizer corpus)"
    and s: "sorted_wrt (<) (dict_terms scenario_dict)"
    by blast+
  have "list_all (\<lambda>t. length t \<le> 255) (dict_terms scenario_dict)"
    by (simp add: d scenario_terms list_all_iff)
  with d s scenario_build show ?thesis by blast
qed

text \<open>
  Two distinct terms that agree on their first 255 bytes get two dictionary entries
  with the same serialized byte string (\<open>term.encode('utf-8')[:255]\<close>), so the
  entries of that dictionary do not ascend strictly.
\<close>

theorem dictionary_order_counterexample:
  "long_a \<noteq> long_b
   \<and> built_dict_terms long_tokenizer long_corpus
       = Inr [replicate 255 (CHR ''a''), replicate 255 (CHR ''a'')]
   \<and> \<not> sorted_wrt (<) [replicate 255 (CHR ''a''), replicate 255 (CHR ''a'')]"
  by (simp add: long_facts long_dict_terms)

section \<open>The round trip of a posting list\<close>





lemma encode_delta_loop_0: "encode_delta xs = encode_delta_loop 0 xs"
  by (cases xs) simp_all




























lemma varbyte_bytes_le5:
  assumes "0 \<le> n" and "n < 2 ^ 35"
  shows "length (varbyte_bytes n) \<le> 5"
proof -
  have "nat n < 2 ^ 35" using assms by (simp add: nat_less_iff)
  then have "bit_length (nat n) \<le> 35" by (rule bit_length_le)
  then have "(bit_length (nat n) + 6) div 7 \<le> 5" by simp
  then show ?thesis using assms(1) by (simp add: length_varbyte_bytes)
qed

lemma encode_delta_loop_bounds:
  assumes "sorted (prev # xs)" and "0 \<le> prev" and "\<forall>x \<in> set xs. x < b"
  shows "\<forall>d \<in> set (encode_delta_loop prev xs). 0 \<le> d \<and> d < b"
  using assms
proof (induction xs arbitrary: prev)
  case Nil
  then show ?case by simp
next
  case (Cons x xs)
  have "sorted (x # xs)" "0 \<le> x" "\<forall>y \<in> set xs. y < b" "prev \<le> x" "x < b"
    using Cons.prems by auto
  with Cons.IH [of x] Cons.prems(2) show ?case by auto
qed

lemma encode_delta_bounds:
  assumes "sorted xs" and "\<forall>x \<in> set xs. 0 \<le> x \<and> x < b"
  shows "\<forall>d \<in> set (encode_delta xs). 0 \<le> d \<and> d < b"
proof -
  have "sorted (0 # xs)" using assms by simp
  then have "\<forall>d \<in> set (encode_delta_loop 0 xs). 0 \<le> d \<and> d < b"
    using assms(2) by (intro encode_delta_loop_bounds) simp_all
  then show ?thesis by (simp only: encode_delta_loop_0)
qed

text \<open>
  Every posting dictionary with fewer than \<open>2 ^ 35\<close> documents whose document ids,
  frequencies and positions are below \<open>2 ^ 35\<close> fits the margins: each varbyte then
  takes at most 5 bytes.
\<close>

lemma small_values_within_margins:
  assumes n: "length dm < 2 ^ 35"
    and v: "\<forall>(doc_id, positions) \<in> set dm.
              0 \<le> doc_id \<and> doc_id < 2 ^ 35 \<and> length positions < 2 ^ 35
              \<and> (\<forall>p \<in> set positions. 0 \<le> p \<and> p < 2 ^ 35)"
  shows "within_margins dm"
proof -
  define ids where "ids = sort (map fst dm)"
  have ids: "\<forall>x \<in> set ids. 0 \<le> x \<and> x < 2 ^ 35" using v by (auto simp: ids_def)
  have "sorted ids" by (simp add: ids_def)
  then have deltas: "\<forall>d \<in> set (encode_delta ids). 0 \<le> d \<and> d < 2 ^ 35"
    using ids by (rule encode_delta_bounds)
  have lk: "length (lookup dm d) < 2 ^ 35 \<and> (\<forall>p \<in> set (lookup dm d). 0 \<le> p \<and> p < 2 ^ 35)" for d
  proof (cases "map_of dm d")
    case None
    then show ?thesis by (simp add: lookup_def)
  next
    case (Some ps)
    then have "(d, ps) \<in> set dm" by (rule map_of_SomeD)
    with v Some show ?thesis by (auto simp: lookup_def)
  qed
  have one: "length (varbyte_bytes delta) + length (varbyte_bytes (int (length (lookup dm d)))) \<le> 11
           \<and> list_all (\<lambda>pos_d. length (varbyte_bytes pos_d) \<le> 6) (encode_delta (sort (lookup dm d)))"
    if "(d, delta) \<in> set (zip ids (encode_delta ids))" for d delta
  proof -
    from that have "delta \<in> set (encode_delta ids)" by (rule set_zip_rightD)
    with deltas have "length (varbyte_bytes delta) \<le> 5" by (simp add: varbyte_bytes_le5)
    moreover have "length (varbyte_bytes (int (length (lookup dm d)))) \<le> 5"
      using lk [of d] by (intro varbyte_bytes_le5) simp_all
    moreover have "\<forall>x \<in> set (encode_delta (sort (lookup dm d))). 0 \<le> x \<and> x < 2 ^ 35"
      using lk [of d] by (intro encode_delta_bounds) simp_all
    then have "\<forall>x \<in> set (encode_delta (sort (lookup dm d))). length (varbyte_bytes x) \<le> 6"
      using varbyte_bytes_le5 by fastforce
    ultimately show ?thesis by (simp add: list_all_iff)
  qed
  have "int (length ids) < 2 ^ 35" using n by (simp add: ids_def)
  then have "length (varbyte_bytes (int (length ids))) \<le> 5"
    by (intro varbyte_bytes_le5) simp_all
  then have "length (varbyte_bytes (int (length ids))) \<le> buffer_size"
    by (simp add: buffer_size_def)
  moreover have "entries_fit dm (zip ids (encode_delta ids))"
    unfolding entries_fit_def
  proof (rule list_all_iff [THEN iffD2], intro ballI)
    fix x assume x: "x \<in> set (zip ids (encode_delta ids))"
    obtain d delta where "x = (d, delta)" by (cases x) auto
    with x one [of d delta]
    show "case x of (doc_id, doc_delta) \<Rightarrow>
            length (varbyte_bytes doc_delta)
              + length (varbyte_bytes (int (length (lookup dm doc_id)))) \<le> 11
            \<and> list_all (\<lambda>pos_d. length (varbyte_bytes pos_d) \<le> 6)
                  (encode_delta (sort (lookup dm doc_id)))"
      by simp
  qed
  ultimately show ?thesis by (simp add: within_margins_def Let_def ids_def)
qed



end
